theory Spec2Isabelle
  imports Main
begin

section \<open>JavaScript strings and values\<close>

text \<open>
  A JavaScript string is a sequence of UTF-16 code units; a code unit is modelled by its
  number.  \<open>js\<close> turns an ASCII literal into such a sequence.
\<close>

type_synonym jsstring = "nat list"

definition js :: "string \<Rightarrow> jsstring" where
  "js s = map of_char s"

text \<open>
  White space as \<open>\s\<close> and \<open>String.prototype.trim\<close> see it (WhiteSpace and
  LineTerminator of ECMA-262), and the line terminators that \<open>.\<close> does not match.
\<close>

definition is_line_terminator :: "nat \<Rightarrow> bool" where
  "is_line_terminator c = (c = 10 \<or> c = 13 \<or> c = 8232 \<or> c = 8233)"

definition is_space :: "nat \<Rightarrow> bool" where
  "is_space c =
     (c = 9 \<or> c = 10 \<or> c = 11 \<or> c = 12 \<or> c = 13 \<or> c = 32 \<or> c = 160 \<or> c = 5760
      \<or> (8192 \<le> c \<and> c \<le> 8202) \<or> c = 8232 \<or> c = 8233 \<or> c = 8239 \<or> c = 8287
      \<or> c = 12288 \<or> c = 65279)"

definition trim :: "jsstring \<Rightarrow> jsstring" where
  "trim s = rev (dropWhile is_space (rev (dropWhile is_space s)))"

text \<open>
  The values a decoded response body can hold, and \<open>undefined\<close>, which reading a missing
  property yields.  Numbers are kept as integers: the code only asks whether one is zero.
\<close>

datatype jsval =
    JUndefined
  | JNull
  | JBool bool
  | JNum int
  | JStr jsstring
  | JArr "jsval list"
  | JObj "(jsstring \<times> jsval) list"

datatype js_error =
    TypeError
  | NetworkError
  | JsonSyntaxError
  | HttpError nat
  | EmptyResponse

fun truthy :: "jsval \<Rightarrow> bool" where
  "truthy JUndefined = False"
| "truthy JNull = False"
| "truthy (JBool b) = b"
| "truthy (JNum n) = (n \<noteq> 0)"
| "truthy (JStr s) = (s \<noteq> [])"
| "truthy (JArr xs) = True"
| "truthy (JObj kvs) = True"

text \<open>\<open>a || b\<close> and \<open>a && b\<close> on values (the operands here have no effects).\<close>

definition js_or :: "jsval \<Rightarrow> jsval \<Rightarrow> jsval" where
  "js_or a b = (if truthy a then a else b)"

definition js_and :: "jsval \<Rightarrow> jsval \<Rightarrow> jsval" where
  "js_and a b = (if truthy a then b else a)"

text \<open>
  \<open>v.k\<close> for a value that is neither \<open>null\<close> nor \<open>undefined\<close>: an object yields its own
  property; no prototype of a primitive, an array or an object has one of the keys read
  here.  \<open>v?.k\<close> adds the short circuit on \<open>null\<close> and \<open>undefined\<close>; \<open>v[0]\<close> reads the
  first element of an array.
\<close>

fun get_prop :: "jsval \<Rightarrow> jsstring \<Rightarrow> jsval" where
  "get_prop (JObj kvs) k = (case map_of kvs k of Some v \<Rightarrow> v | None \<Rightarrow> JUndefined)"
| "get_prop v k = JUndefined"

fun opt_prop :: "jsval \<Rightarrow> jsstring \<Rightarrow> jsval" where
  "opt_prop JUndefined k = JUndefined"
| "opt_prop JNull k = JUndefined"
| "opt_prop v k = get_prop v k"

fun first_elem :: "jsval \<Rightarrow> jsval" where
  "first_elem (JArr (x # xs)) = x"
| "first_elem v = JUndefined"

fun isArray :: "jsval \<Rightarrow> bool" where
  "isArray (JArr xs) = True"
| "isArray v = False"

section \<open>The reply extractor\<close>

definition extractReply :: "jsval \<Rightarrow> js_error + jsval" where
  "extractReply data =
     (case data of
        JStr s \<Rightarrow> Inr data
      | JNull \<Rightarrow> Inl TypeError
      | JUndefined \<Rightarrow> Inl TypeError
      | _ \<Rightarrow>
          Inr (js_or (js_or (js_or (js_or (js_or (js_or (js_or (js_or (js_or
                 (get_prop data (js ''reply''))
                 (get_prop data (js ''message'')))
                 (get_prop data (js ''text'')))
                 (get_prop data (js ''answer'')))
                 (get_prop data (js ''output'')))
                 (get_prop data (js ''response'')))
                 (get_prop data (js ''data'')))
                 (js_and (JBool (isArray data)) (opt_prop (first_elem data) (js ''reply''))))
                 (js_and (JBool (isArray data))
                    (opt_prop (opt_prop (first_elem data) (js ''json'')) (js ''reply''))))
                 JNull))"

text \<open>
  The probe order in the words of the specification: the candidate keys in their order,
  then the first array element's \<open>reply\<close>, then its nested \<open>json.reply\<close>; the first
  probe that yields a usable (truthy) value wins, and no usable value gives \<open>null\<close>.
\<close>

definition candidate_keys :: "jsstring list" where
  "candidate_keys =
     [js ''reply'', js ''message'', js ''text'', js ''answer'', js ''output'',
      js ''response'', js ''data'']"

definition probes :: "(jsval \<Rightarrow> jsval) list" where
  "probes =
     map (\<lambda>k d. get_prop d k) candidate_keys @
     [\<lambda>d. case d of JArr (x # xs) \<Rightarrow> opt_prop x (js ''reply'') | _ \<Rightarrow> JUndefined,
      \<lambda>d. case d of JArr (x # xs) \<Rightarrow> opt_prop (opt_prop x (js ''json'')) (js ''reply'')
           | _ \<Rightarrow> JUndefined]"

definition first_match :: "jsval \<Rightarrow> jsval" where
  "first_match d =
     (case d of
        JStr s \<Rightarrow> d
      | _ \<Rightarrow> (case find truthy (map (\<lambda>p. p d) probes) of Some v \<Rightarrow> v | None \<Rightarrow> JNull))"


section \<open>Strings: the operations of the platform\<close>

text \<open>\<open>strip_prefix p s\<close>: what follows \<open>p\<close> in \<open>s\<close>, when \<open>s\<close> starts with \<open>p\<close>.\<close>

fun strip_prefix :: "jsstring \<Rightarrow> jsstring \<Rightarrow> jsstring option" where
  "strip_prefix [] s = Some s"
| "strip_prefix (p # ps) [] = None"
| "strip_prefix (p # ps) (c # cs) = (if p = c then strip_prefix ps cs else None)"

text \<open>\<open>s.includes_str(p)\<close>.\<close>

fun includes_str :: "jsstring \<Rightarrow> jsstring \<Rightarrow> bool" where
  "includes_str [] p = (p = [])"
| "includes_str (c # cs) p = (strip_prefix p (c # cs) \<noteq> None \<or> includes_str cs p)"

text \<open>
  \<open>s.split_str(sep)\<close> for a separator string that is not empty (as every separator in the
  source is): the input is cut at each occurrence of the separator, found from left to
  right; \<open>cur\<close> is the piece being read.  The empty string splits into one empty piece.
\<close>

function split_from :: "jsstring \<Rightarrow> jsstring \<Rightarrow> jsstring \<Rightarrow> jsstring list" where
  "split_from sep cur [] = [cur]"
| "split_from sep cur (c # cs) =
     (case strip_prefix sep (c # cs) of
        Some r \<Rightarrow>
          if length r < length (c # cs) then cur # split_from sep [] r
          else split_from sep (cur @ [c]) cs
      | None \<Rightarrow> split_from sep (cur @ [c]) cs)"
  by pat_completeness auto
termination
  by (relation "measure (\<lambda>(sep, cur, s). length s)") auto

definition split_str :: "jsstring \<Rightarrow> jsstring \<Rightarrow> jsstring list" where
  "split_str s sep = split_from sep [] s"

subsection \<open>Regular expressions\<close>

text \<open>
  A pattern is a matcher in the style of ECMA-262: it takes the rest of the input and a
  continuation, and tries its alternatives in the order of the backtracking search; the
  first one on which the continuation succeeds is the match.  None of the patterns that
  are searched for below looks behind the position where it starts.
\<close>

definition lit :: "jsstring \<Rightarrow> jsstring \<Rightarrow> (jsstring \<Rightarrow> 'a option) \<Rightarrow> 'a option" where
  "lit p s k = (case strip_prefix p s of Some r \<Rightarrow> k r | None \<Rightarrow> None)"

text \<open>One character of a class.\<close>

definition one_of :: "(nat \<Rightarrow> bool) \<Rightarrow> jsstring \<Rightarrow> (jsstring \<Rightarrow> 'a option) \<Rightarrow> 'a option" where
  "one_of P s k = (case s of [] \<Rightarrow> None | c # r \<Rightarrow> if P c then k r else None)"

text \<open>\<open>X*\<close> for a class \<open>X\<close>, greedy: as many characters as possible first.\<close>

fun star :: "(nat \<Rightarrow> bool) \<Rightarrow> jsstring \<Rightarrow> (jsstring \<Rightarrow> 'a option) \<Rightarrow> 'a option" where
  "star P [] k = k []"
| "star P (c # r) k =
     (if P c then (case star P r k of Some x \<Rightarrow> Some x | None \<Rightarrow> k (c # r)) else k (c # r))"

text \<open>\<open>X+\<close> for a class \<open>X\<close>.\<close>

definition plus_of :: "(nat \<Rightarrow> bool) \<Rightarrow> jsstring \<Rightarrow> (jsstring \<Rightarrow> 'a option) \<Rightarrow> 'a option" where
  "plus_of P s k = one_of P s (\<lambda>r. star P r k)"

text \<open>\<open>X*?\<close> for a class \<open>X\<close>, lazy: as few characters as possible first.\<close>

fun star_lazy :: "(nat \<Rightarrow> bool) \<Rightarrow> jsstring \<Rightarrow> (jsstring \<Rightarrow> 'a option) \<Rightarrow> 'a option" where
  "star_lazy P [] k = k []"
| "star_lazy P (c # r) k =
     (case k (c # r) of Some x \<Rightarrow> Some x | None \<Rightarrow> if P c then star_lazy P r k else None)"

text \<open>
  A capturing group \<open>(m)\<close>: the continuation also receives the text the group matched.
  \<open>(m)?\<close>: the group is tried first, then skipped, and a skipped group captures nothing.
\<close>

definition capture ::
  "(jsstring \<Rightarrow> (jsstring \<Rightarrow> 'a option) \<Rightarrow> 'a option) \<Rightarrow> jsstring \<Rightarrow>
   (jsstring \<Rightarrow> jsstring \<Rightarrow> 'a option) \<Rightarrow> 'a option" where
  "capture m s k = m s (\<lambda>r. k (take (length s - length r) s) r)"

definition group_opt ::
  "(jsstring \<Rightarrow> (jsstring \<Rightarrow> 'a option) \<Rightarrow> 'a option) \<Rightarrow> jsstring \<Rightarrow>
   (jsstring option \<Rightarrow> jsstring \<Rightarrow> 'a option) \<Rightarrow> 'a option" where
  "group_opt m s k =
     (case capture m s (\<lambda>g r. k (Some g) r) of Some x \<Rightarrow> Some x | None \<Rightarrow> k None s)"

text \<open>
  \<open>(m)*\<close>, greedy, after an iteration that captured \<open>prev\<close>: another iteration is tried
  first; an iteration that matches the empty string is rejected; the group captures the
  text of its last iteration.  The first argument bounds the number of iterations; as
  each one consumes a character, the length of the input is a bound that is never
  reached before the input ends.  \<open>(m)+\<close> is one iteration followed by \<open>(m)*\<close>.
\<close>

fun group_star ::
  "nat \<Rightarrow> (jsstring \<Rightarrow> (jsstring \<Rightarrow> 'a option) \<Rightarrow> 'a option) \<Rightarrow> jsstring \<Rightarrow> jsstring option \<Rightarrow>
   (jsstring option \<Rightarrow> jsstring \<Rightarrow> 'a option) \<Rightarrow> 'a option" where
  "group_star 0 m s prev k = k prev s"
| "group_star (Suc n) m s prev k =
     (case capture m s (\<lambda>g r. if g = [] then None else group_star n m r (Some g) k) of
        Some x \<Rightarrow> Some x
      | None \<Rightarrow> k prev s)"

definition group_plus ::
  "(jsstring \<Rightarrow> (jsstring \<Rightarrow> 'a option) \<Rightarrow> 'a option) \<Rightarrow> jsstring \<Rightarrow>
   (jsstring option \<Rightarrow> jsstring \<Rightarrow> 'a option) \<Rightarrow> 'a option" where
  "group_plus m s k = capture m s (\<lambda>g r. group_star (length r) m r (Some g) k)"

subsection \<open>Replacing every match\<close>

text \<open>
  The replacement text for one match (GetSubstitution of ECMA-262): in the template,
  \<open>$$\<close> stands for a dollar sign, \<open>$&\<close> for the matched text, \<open>$`\<close> and \<open>$'\<close> for the input
  before and after the match, \<open>$n\<close> and \<open>$nn\<close> for the text of a capturing group (empty
  when the group did not take part); a two-digit number beyond the number of groups is
  read as one digit followed by a literal digit, and a number that names no group leaves
  the characters as they are.
\<close>

definition is_digit :: "nat \<Rightarrow> bool" where
  "is_digit c = (48 \<le> c \<and> c \<le> 57)"

definition capture_text :: "jsstring option list \<Rightarrow> nat \<Rightarrow> jsstring" where
  "capture_text caps n = (case caps ! (n - 1) of Some g \<Rightarrow> g | None \<Rightarrow> [])"

text \<open>
  \<open>reference t\<close> reads the template \<open>t\<close> where it starts: it gives the text that
  replaces the reference found there, and how many characters of the template the
  reference takes beyond the first.
\<close>

definition reference ::
  "jsstring \<Rightarrow> jsstring \<Rightarrow> jsstring \<Rightarrow> jsstring \<Rightarrow> jsstring option list \<Rightarrow> jsstring \<times> nat" where
  "reference t matched preceding following caps =
     (case t of
        [] \<Rightarrow> ([], 0)
      | [c] \<Rightarrow> ([c], 0)
      | c # d # u \<Rightarrow>
          if c \<noteq> 36 then ([c], 0)
          else if d = 36 then ([36], 1)
          else if d = 96 then (preceding, 1)
          else if d = 38 then (matched, 1)
          else if d = 39 then (following, 1)
          else if is_digit d then
            (case u of
               e # v \<Rightarrow>
                 if is_digit e \<and> (d - 48) * 10 + (e - 48) \<le> length caps then
                   (if 1 \<le> (d - 48) * 10 + (e - 48)
                    then (capture_text caps ((d - 48) * 10 + (e - 48)), 2)
                    else ([c, d, e], 2))
                 else if 1 \<le> d - 48 \<and> d - 48 \<le> length caps
                   then (capture_text caps (d - 48), 1)
                   else ([c, d], 1)
             | [] \<Rightarrow>
                 if 1 \<le> d - 48 \<and> d - 48 \<le> length caps
                 then (capture_text caps (d - 48), 1)
                 else ([c, d], 1))
          else ([c], 0))"

function substitute ::
  "jsstring \<Rightarrow> jsstring \<Rightarrow> jsstring \<Rightarrow> jsstring \<Rightarrow> jsstring option list \<Rightarrow> jsstring" where
  "substitute [] matched preceding following caps = []"
| "substitute (c # t) matched preceding following caps =
     fst (reference (c # t) matched preceding following caps) @
     substitute (drop (snd (reference (c # t) matched preceding following caps)) t)
       matched preceding following caps"
  by pat_completeness auto
termination
  by (relation "measure (\<lambda>(t, matched, preceding, following, caps). length t)") auto

text \<open>
  \<open>s.replace(re, template)\<close> for a pattern with the flag \<open>g\<close>: the matcher \<open>m\<close> yields
  the captures and the rest of the input when the pattern matches where the input
  starts.  The search goes from left to right; each match is replaced and the search goes
  on behind it (one character further when the match is empty).  \<open>preceding\<close> is the input
  already passed.
\<close>

function replace_from ::
  "(jsstring \<Rightarrow> (jsstring option list \<times> jsstring) option) \<Rightarrow> jsstring \<Rightarrow> jsstring \<Rightarrow> jsstring \<Rightarrow>
   jsstring" where
  "replace_from m template preceding s =
     (case m s of
        Some (caps, rest) \<Rightarrow>
          (let matched = take (length s - length rest) s;
               out = substitute template matched preceding rest caps
           in if length rest < length s
              then out @ replace_from m template (preceding @ matched) rest
              else (case s of
                      [] \<Rightarrow> out
                    | c # cs \<Rightarrow> out @ c # replace_from m template (preceding @ [c]) cs))
      | None \<Rightarrow>
          (case s of
             [] \<Rightarrow> []
           | c # cs \<Rightarrow> c # replace_from m template (preceding @ [c]) cs))"
  by pat_completeness auto
termination
  by (relation "measure (\<lambda>(m, template, preceding, s). length s)") auto

declare replace_from.simps [simp del]

definition replace_all ::
  "(jsstring \<Rightarrow> (jsstring option list \<times> jsstring) option) \<Rightarrow> jsstring \<Rightarrow> jsstring \<Rightarrow> jsstring" where
  "replace_all m template s = replace_from m template [] s"

section \<open>The message formatter\<close>

subsection \<open>The patterns of the source\<close>

text \<open>
  Each matcher yields the texts of the capturing groups and the rest of the input.
  \<open>.\<close> matches every character but a line terminator; \<open>\s\<close> is \<open>is_space\<close>.
\<close>

definition dot :: "nat \<Rightarrow> bool" where
  "dot c = (\<not> is_line_terminator c)"

text \<open>\<open>/\n/g\<close>\<close>

definition match_newline :: "jsstring \<Rightarrow> (jsstring option list \<times> jsstring) option" where
  "match_newline s = lit [10] s (\<lambda>r. Some ([], r))"

text \<open>
  The class of the bullet pattern.  The source file holds, after the dash, the bytes
  C3 A2, E2 82 AC, C2 A2, which are the three characters U+00E2, U+20AC and U+00A2 in
  UTF-8 (the bullet U+2022 encoded twice); the class is these three and the dash.
\<close>

definition bullet_class :: "nat \<Rightarrow> bool" where
  "bullet_class c = (c = 45 \<or> c = 226 \<or> c = 8364 \<or> c = 162)"

text \<open>\<open>/<p>[-...]\s*(.*?)<\/p>/g\<close>\<close>

definition match_bullet :: "jsstring \<Rightarrow> (jsstring option list \<times> jsstring) option" where
  "match_bullet s =
     lit (js ''<p>'') s (\<lambda>s1.
     one_of bullet_class s1 (\<lambda>s2.
     star is_space s2 (\<lambda>s3.
     capture (star_lazy dot) s3 (\<lambda>g1 s4.
     lit (js ''</p>'') s4 (\<lambda>s5.
     Some ([Some g1], s5))))))"

text \<open>\<open>/(<li>.*<\/li>)+/g\<close>\<close>

definition match_items :: "jsstring \<Rightarrow> (jsstring option list \<times> jsstring) option" where
  "match_items s =
     group_plus (\<lambda>s k. lit (js ''<li>'') s (\<lambda>s1. star dot s1 (\<lambda>s2. lit (js ''</li>'') s2 k))) s
       (\<lambda>g1 r. Some ([g1], r))"

text \<open>\<open>/\*\*(.*?)\*\*/g\<close>\<close>

definition match_bold :: "jsstring \<Rightarrow> (jsstring option list \<times> jsstring) option" where
  "match_bold s =
     lit (js ''**'') s (\<lambda>s1.
     capture (star_lazy dot) s1 (\<lambda>g1 s2.
     lit (js ''**'') s2 (\<lambda>s3.
     Some ([Some g1], s3))))"

text \<open>
  \<open>/^\|[\s-|]+\|$/\<close>, used with \<open>line.match\<close>: without the flag \<open>m\<close>, \<open>^\<close> holds at the
  start of the line only and \<open>$\<close> at its end only, so the pattern matches somewhere
  exactly when it matches the whole line.  In the class, \<open>\s-|\<close> is no range: the class
  holds white space, the dash and the pipe.
\<close>

definition separator_class :: "nat \<Rightarrow> bool" where
  "separator_class c = (is_space c \<or> c = 45 \<or> c = 124)"

definition is_separator :: "jsstring \<Rightarrow> bool" where
  "is_separator line =
     (lit (js ''|'') line (\<lambda>s1.
      plus_of separator_class s1 (\<lambda>s2.
      lit (js ''|'') s2 (\<lambda>s3.
      if s3 = [] then Some () else None))) \<noteq> None)"

text \<open>\<open>/(<p>)?(\|[^<]+<br>)+(\|[^<]+)(<\/p>)?/g\<close>\<close>

definition not_lt :: "nat \<Rightarrow> bool" where
  "not_lt c = (c \<noteq> 60)"

definition match_table :: "jsstring \<Rightarrow> (jsstring option list \<times> jsstring) option" where
  "match_table s =
     group_opt (lit (js ''<p>'')) s (\<lambda>g1 s1.
     group_plus (\<lambda>s k. lit (js ''|'') s (\<lambda>a. plus_of not_lt a (\<lambda>b. lit (js ''<br>'') b k))) s1
       (\<lambda>g2 s2.
     capture (\<lambda>s k. lit (js ''|'') s (\<lambda>a. plus_of not_lt a k)) s2 (\<lambda>g3 s3.
     group_opt (lit (js ''</p>'')) s3 (\<lambda>g4 s4.
     Some ([g1, g2, Some g3, g4], s4)))))"

subsection \<open>The functions of the source\<close>

text \<open>
  \<open>escapeHtml\<close> works on the document: it makes a \<open>div\<close> element, stores the text in it
  and reads back its serialisation.  The document is modelled by the elements made so
  far (none of them is ever attached), each with its text.  Serialising a text node
  escapes \<open>&\<close>, \<open><\<close>, \<open>>\<close> and the no-break space.
\<close>

type_synonym dom = "jsstring list"

definition createElement :: "dom \<Rightarrow> nat \<times> dom" where
  "createElement doc = (length doc, doc @ [[]])"

definition set_textContent :: "nat \<Rightarrow> jsstring \<Rightarrow> dom \<Rightarrow> dom" where
  "set_textContent el text doc = doc[el := text]"

definition escape_unit :: "nat \<Rightarrow> jsstring" where
  "escape_unit c =
     (if c = 38 then js ''&amp;''
      else if c = 60 then js ''&lt;''
      else if c = 62 then js ''&gt;''
      else if c = 160 then js ''&nbsp;''
      else [c])"

definition innerHTML :: "nat \<Rightarrow> dom \<Rightarrow> jsstring" where
  "innerHTML el doc = concat (map escape_unit (doc ! el))"

definition escapeHtml :: "dom \<Rightarrow> jsstring \<Rightarrow> jsstring \<times> dom" where
  "escapeHtml doc text =
     (let (el, doc1) = createElement doc;
          doc2 = set_textContent el text doc1
      in (innerHTML el doc2, doc2))"

text \<open>What one line adds to \<open>tableHtml\<close> in the loop of \<open>convertToTable\<close>.\<close>

definition table_row :: "jsstring \<Rightarrow> nat \<Rightarrow> jsstring" where
  "table_row line index =
     (if is_separator line then []
      else
        (let cells = filter (\<lambda>cell. trim cell \<noteq> []) (split_str line (js ''|''));
             tag = (if index = 0 then js ''th'' else js ''td'')
         in if length cells > 0
            then js ''<tr>'' @
                 concat (map (\<lambda>cell. js ''<'' @ tag @ js ''>'' @ trim cell @ js ''</'' @ tag @ js ''>'')
                           cells) @
                 js ''</tr>''
            else []))"

definition convertToTable :: "jsstring \<Rightarrow> jsstring" where
  "convertToTable text =
     (let lines = filter (\<lambda>line. includes_str line (js ''|'')) (split_str text (js ''<br>''))
      in if length lines < 2 then text
         else
           (let tableHtml =
                  js ''<table>'' @
                  concat (map (\<lambda>(line, index). table_row line index)
                            (zip lines [0..<length lines])) @
                  js ''</table>''
            in replace_all match_table tableHtml text))"

text \<open>
  \<open>formatMessage\<close> after the escaping, on the value of \<open>formatted\<close>: paragraphs and line
  breaks, bullet points, bold text, tables.
\<close>

definition format_escaped :: "jsstring \<Rightarrow> jsstring" where
  "format_escaped escaped =
     (let formatted =
            concat (map (\<lambda>para. js ''<p>'' @ replace_all match_newline (js ''<br>'') para @ js ''</p>'')
                      (split_str escaped [10, 10]));
          formatted = replace_all match_bullet (js ''<li>$1</li>'') formatted;
          formatted = replace_all match_items (js ''<ul>$&</ul>'') formatted;
          formatted = replace_all match_bold (js ''<strong>$1</strong>'') formatted
      in if includes_str formatted (js ''|'') \<and> includes_str formatted (js ''<br>'')
         then convertToTable formatted
         else formatted)"

definition formatMessage :: "dom \<Rightarrow> jsstring \<Rightarrow> jsstring \<times> dom" where
  "formatMessage doc content =
     (let (formatted, doc1) = escapeHtml doc content
      in (format_escaped formatted, doc1))"

section \<open>The state of the page\<close>

datatype sender = User | Bot

text \<open>
  What the page does that the claims speak of, in the order it happens: a request sent
  with \<open>fetch\<close> (message and session id), a wait started with \<open>delay\<close> (milliseconds),
  an error toast shown.
\<close>

datatype effect = Request jsstring jsstring | Wait nat | Toast

text \<open>
  The state of the page: the globals \<open>isLoading\<close>, \<open>sessionId\<close> and \<open>messageHistory\<close>,
  what \<open>sessionStorage\<close> holds of the history, the value of the input box, the
  \<open>disabled\<close> flag of the send button, whether the typing indicator shows, the effects
  so far, and the calls of \<open>sendMessage\<close> that are suspended at an \<open>await\<close>
  (message, retry count, and what they wait for).
\<close>

datatype phase = AwaitingFetch | AwaitingDelay

record world =
  isLoading :: bool
  sessionId :: jsstring
  inputValue :: jsstring
  sendDisabled :: bool
  typingVisible :: bool
  messageHistory :: "(jsval \<times> sender) list"
  storedHistory :: "(jsval \<times> sender) list"
  effects :: "effect list"
  pending :: "(jsstring \<times> nat \<times> phase) list"


section \<open>The webhook client\<close>

text \<open>
  \<open>CONFIG\<close> is a parameter of the model; \<open>CONFIG\<close> below is the value the source gives it.
\<close>

record config =
  maxRetries :: nat
  retryDelay :: nat

definition CONFIG :: config where
  "CONFIG = \<lparr>maxRetries = 3, retryDelay = 1000\<rparr>"

text \<open>
  What the network does with one request: \<open>fetch\<close> rejects, or a response arrives with
  a status and a body, which \<open>response.json()\<close> decodes (\<open>None\<close>: the body is not JSON
  and decoding rejects).
\<close>

datatype outcome = FetchRejected | Response nat "jsval option"

definition response_ok :: "nat \<Rightarrow> bool" where
  "response_ok status = (200 \<le> status \<and> status \<le> 299)"

text \<open>
  The \<open>try\<close> block of \<open>sendMessage\<close> after the request has settled: \<open>Inl\<close> is the
  exception that reaches the \<open>catch\<close> block, \<open>Inr\<close> the reply that is appended.
\<close>

definition attempt :: "outcome \<Rightarrow> js_error + jsval" where
  "attempt out =
     (case out of
        FetchRejected \<Rightarrow> Inl NetworkError
      | Response status body \<Rightarrow>
          if \<not> response_ok status then Inl (HttpError status)
          else (case body of
                  None \<Rightarrow> Inl JsonSyntaxError
                | Some data \<Rightarrow>
                    (case extractReply data of
                       Inl e \<Rightarrow> Inl e
                     | Inr reply \<Rightarrow> if truthy reply then Inr reply else Inl EmptyResponse)))"

text \<open>
  \<open>appendMessage\<close> with \<open>save\<close> left at its default: the message joins the history and
  the history is saved.  (The element it adds to the chat shows \<open>formatMessage(content)\<close>;
  the document is not part of this state.)
\<close>

definition appendMessage :: "jsval \<Rightarrow> sender \<Rightarrow> world \<Rightarrow> world" where
  "appendMessage content type w =
     (let w1 = w\<lparr>messageHistory := messageHistory w @ [(content, type)]\<rparr>
      in w1\<lparr>storedHistory := messageHistory w1\<rparr>)"

definition showToast :: "world \<Rightarrow> world" where
  "showToast w = w\<lparr>effects := effects w @ [Toast]\<rparr>"

text \<open>The \<open>finally\<close> block of \<open>sendMessage\<close>.\<close>

definition finally_block :: "world \<Rightarrow> world" where
  "finally_block w =
     w\<lparr>isLoading := False, typingVisible := False,
       sendDisabled := (length (trim (inputValue w)) = 0)\<rparr>"

text \<open>\<open>sendMessage\<close> from its entry to \<open>await fetch(...)\<close>, where it is suspended.\<close>

definition sendMessage_enter :: "jsstring \<Rightarrow> world \<Rightarrow> world" where
  "sendMessage_enter message w =
     w\<lparr>isLoading := True, typingVisible := True,
       effects := effects w @ [Request message (sessionId w)]\<rparr>"

text \<open>
  How the promise of a call of \<open>sendMessage\<close> settles: it is fulfilled when the body
  returns, and rejected when an exception leaves the body.
\<close>

datatype settlement = Fulfilled | Rejected js_error

text \<open>
  \<open>sendMessage\<close> from the moment its request settles: either it completes (the reply is
  appended, or the retries are used up and the toast is shown; the \<open>finally\<close> block has
  run), or it is suspended again at \<open>await delay(...)\<close>.  The \<open>catch\<close> block handles
  the exception of the \<open>try\<close> block and throws nothing itself, so a call that completes
  returns and its promise is fulfilled.
\<close>

datatype suspension = Completed settlement world | Sleeping world

definition sendMessage_settled :: "config \<Rightarrow> nat \<Rightarrow> outcome \<Rightarrow> world \<Rightarrow> suspension" where
  "sendMessage_settled cfg retryCount out w =
     (case attempt out of
        Inr reply \<Rightarrow> Completed Fulfilled (finally_block (appendMessage reply Bot w))
      | Inl e \<Rightarrow>
          if retryCount < maxRetries cfg
          then Sleeping (w\<lparr>effects := effects w @ [Wait (retryDelay cfg * (retryCount + 1))]\<rparr>)
          else Completed Fulfilled (finally_block (showToast w)))"

text \<open>
  \<open>sendMessage\<close> from the moment its wait is over: \<open>return sendMessage(message,
  retryCount + 1)\<close> evaluates the call, which runs up to its own \<open>await fetch(...)\<close> and
  hands back a pending promise; an \<open>async\<close> function does not await the value it
  returns, so the \<open>finally\<close> block of the outer call runs at once, while the request of
  the inner call is in flight.
\<close>

definition sendMessage_woken :: "jsstring \<Rightarrow> world \<Rightarrow> world" where
  "sendMessage_woken message w = finally_block (sendMessage_enter message w)"

text \<open>
  One send, run from its first request to its end with no other event in between;
  \<open>env k\<close> is what the network does with the request made at retry count \<open>k\<close>.  The
  result is how the promise of the call settles (a call that retries hands back the
  promise of the inner call) and the state of the page at the end.
\<close>

function sendMessage_from ::
  "config \<Rightarrow> (nat \<Rightarrow> outcome) \<Rightarrow> jsstring \<Rightarrow> nat \<Rightarrow> world \<Rightarrow> settlement \<times> world" where
  "sendMessage_from cfg env message retryCount w =
     (case sendMessage_settled cfg retryCount (env retryCount) w of
        Completed result w' \<Rightarrow> (result, w')
      | Sleeping w' \<Rightarrow>
          sendMessage_from cfg env message (retryCount + 1) (sendMessage_woken message w'))"
  by pat_completeness auto
termination
  by (relation "measure (\<lambda>(cfg, env, message, retryCount, w). maxRetries cfg - retryCount)")
    (auto simp: sendMessage_settled_def split: sum.splits if_splits)

declare sendMessage_from.simps [simp del]

definition sendMessage ::
  "config \<Rightarrow> (nat \<Rightarrow> outcome) \<Rightarrow> jsstring \<Rightarrow> world \<Rightarrow> settlement \<times> world" where
  "sendMessage cfg env message w = sendMessage_from cfg env message 0 (sendMessage_enter message w)"

subsection \<open>The page as an event loop\<close>

text \<open>
  Each handler and each resumption after an \<open>await\<close> runs to its next suspension without
  interruption.  The events: the form is submitted, the user edits the input box, the
  request of the \<open>i\<close>-th suspended call settles, the wait of the \<open>i\<close>-th suspended call
  is over.
\<close>

datatype event = Submit | Input jsstring | FetchSettled nat outcome | DelayElapsed nat

definition handleInput :: "jsstring \<Rightarrow> world \<Rightarrow> world" where
  "handleInput v w =
     w\<lparr>inputValue := v, sendDisabled := (\<not> (length (trim v) > 0) \<or> isLoading w)\<rparr>"

definition handleSubmit :: "world \<Rightarrow> world" where
  "handleSubmit w =
     (let message = trim (inputValue w) in
      if message = [] \<or> isLoading w then w
      else
        (let w1 = w\<lparr>inputValue := [], sendDisabled := True\<rparr>;
             w2 = appendMessage (JStr message) User w1;
             w3 = sendMessage_enter message w2
         in w3\<lparr>pending := pending w3 @ [(message, 0, AwaitingFetch)]\<rparr>))"

definition remove_nth :: "nat \<Rightarrow> 'a list \<Rightarrow> 'a list" where
  "remove_nth i xs = take i xs @ drop (Suc i) xs"

fun step :: "config \<Rightarrow> world \<Rightarrow> event \<Rightarrow> world" where
  "step cfg w Submit = handleSubmit w"
| "step cfg w (Input v) = handleInput v w"
| "step cfg w (FetchSettled i out) =
     (if i < length (pending w) then
        (case pending w ! i of
           (message, retryCount, AwaitingFetch) \<Rightarrow>
             (case sendMessage_settled cfg retryCount out w of
                Completed result w' \<Rightarrow> w'\<lparr>pending := remove_nth i (pending w')\<rparr>
              | Sleeping w' \<Rightarrow>
                  w'\<lparr>pending := (pending w')[i := (message, retryCount, AwaitingDelay)]\<rparr>)
         | (message, retryCount, AwaitingDelay) \<Rightarrow> w)
      else w)"
| "step cfg w (DelayElapsed i) =
     (if i < length (pending w) then
        (case pending w ! i of
           (message, retryCount, AwaitingDelay) \<Rightarrow>
             (let w' = sendMessage_woken message w
              in w'\<lparr>pending := (pending w')[i := (message, retryCount + 1, AwaitingFetch)]\<rparr>)
         | (message, retryCount, AwaitingFetch) \<Rightarrow> w)
      else w)"

definition run :: "config \<Rightarrow> world \<Rightarrow> event list \<Rightarrow> world" where
  "run cfg w evs = foldl (step cfg) w evs"

text \<open>The page after \<open>init\<close>, with nothing typed and nothing sent.\<close>

definition idle :: "jsstring \<Rightarrow> world" where
  "idle sid =
     \<lparr>isLoading = False, sessionId = sid, inputValue = [], sendDisabled = False,
      typingVisible = False, messageHistory = [], storedHistory = [], effects = [],
      pending = []\<rparr>"

text \<open>The number of requests in flight.\<close>

definition in_flight :: "world \<Rightarrow> nat" where
  "in_flight w = length (filter (\<lambda>(message, retryCount, ph). ph = AwaitingFetch) (pending w))"

text \<open>
  An attempt fails when its \<open>try\<close> block throws: the transport failed, the status was
  not a success, the body did not decode, or no usable reply was found in it.
\<close>

definition fails :: "outcome \<Rightarrow> bool" where
  "fails out = isl (attempt out)"

text \<open>A network on which every request fails at the transport.\<close>

definition unreachable :: "nat \<Rightarrow> outcome" where
  "unreachable k = FetchRejected"

text \<open>The effects between two states of the page, and what a list of effects holds.\<close>

definition new_effects :: "world \<Rightarrow> world \<Rightarrow> effect list" where
  "new_effects w w' = drop (length (effects w)) (effects w')"

fun is_request :: "effect \<Rightarrow> bool" where
  "is_request (Request message sid) = True"
| "is_request e = False"

fun waits :: "effect list \<Rightarrow> nat list" where
  "waits [] = []"
| "waits (Wait ms # es) = ms # waits es"
| "waits (e # es) = waits es"

section \<open>Safe markup\<close>

text \<open>
  The markup the formatter's own rules introduce, and the escapes \<open>escapeHtml\<close> writes.
\<close>

definition markup_tags :: "jsstring list" where
  "markup_tags =
     map js [''<p>'', ''</p>'', ''<br>'', ''<li>'', ''</li>'', ''<ul>'', ''</ul>'',
             ''<strong>'', ''</strong>'', ''<table>'', ''</table>'', ''<tr>'', ''</tr>'',
             ''<th>'', ''</th>'', ''<td>'', ''</td>'']"

definition entities :: "jsstring list" where
  "entities = map js [''&amp;'', ''&lt;'', ''&gt;'', ''&nbsp;'']"

fun strip_first :: "jsstring list \<Rightarrow> jsstring \<Rightarrow> jsstring option" where
  "strip_first [] s = None"
| "strip_first (t # ts) s =
     (case strip_prefix t s of Some r \<Rightarrow> Some r | None \<Rightarrow> strip_first ts s)"

text \<open>
  A text is safe markup when every \<open><\<close> in it starts one of the formatter's tags, every
  \<open>&\<close> starts one of the escapes, and no \<open>>\<close> stands outside a tag: read from left to
  right, it is a sequence of tags, escapes and characters other than \<open><\<close>, \<open>>\<close>, \<open>&\<close>.
\<close>

function safe_markup :: "jsstring \<Rightarrow> bool" where
  "safe_markup [] = True"
| "safe_markup (c # s) =
     (if c = 60 then
        (case strip_first markup_tags (c # s) of
           Some r \<Rightarrow> if length r < length (c # s) then safe_markup r else False
         | None \<Rightarrow> False)
      else if c = 38 then
        (case strip_first entities (c # s) of
           Some r \<Rightarrow> if length r < length (c # s) then safe_markup r else False
         | None \<Rightarrow> False)
      else if c = 62 then False
      else safe_markup s)"
  by pat_completeness auto
termination
  by (relation "measure length") auto

text \<open>The same language as a grammar.\<close>

definition plain :: "nat \<Rightarrow> bool" where
  "plain c = (c \<noteq> 60 \<and> c \<noteq> 62 \<and> c \<noteq> 38)"

inductive wf_markup :: "jsstring \<Rightarrow> bool" where
  wf_empty: "wf_markup []"
| wf_plain: "plain c \<Longrightarrow> wf_markup s \<Longrightarrow> wf_markup (c # s)"
| wf_token: "t \<in> set (markup_tags @ entities) \<Longrightarrow> wf_markup s \<Longrightarrow> wf_markup (t @ s)"

text \<open>
  The characters that stand inside a tag or an escape behind its first character, and
  those that stand in one before its last character.
\<close>

definition inner_char :: "nat \<Rightarrow> bool" where
  "inner_char c = (\<exists>t \<in> set (markup_tags @ entities). c \<in> set (tl t))"

definition nonfinal_char :: "nat \<Rightarrow> bool" where
  "nonfinal_char c = (\<exists>t \<in> set (markup_tags @ entities). c \<in> set (butlast t))"

text \<open>
  A matcher is aligned when, in safe markup, what it matches and what it captures is
  safe markup again, as is the input on either side of the match.
\<close>

definition wf_caps :: "jsstring option list \<Rightarrow> bool" where
  "wf_caps caps = (\<forall>g \<in> set caps. case g of Some x \<Rightarrow> wf_markup x | None \<Rightarrow> True)"

definition aligned :: "(jsstring \<Rightarrow> (jsstring option list \<times> jsstring) option) \<Rightarrow> bool" where
  "aligned m =
     (\<forall>pre s caps rest.
        wf_markup (pre @ s) \<and> m s = Some (caps, rest) \<longrightarrow>
          (\<exists>matched. s = matched @ rest \<and> wf_markup pre \<and> wf_markup matched \<and> wf_markup rest \<and>
             wf_caps caps))"

text \<open>A character that stands in no tag and no escape.\<close>

definition outside :: "nat \<Rightarrow> bool" where
  "outside c = (\<not> inner_char c \<and> \<not> nonfinal_char c)"

section \<open>Properties of the reply extractor\<close>

lemma extractReply_first_match:
  "d \<noteq> JNull \<Longrightarrow> d \<noteq> JUndefined \<Longrightarrow> extractReply d = Inr (first_match d)"
proof (cases d)
  case (JArr xs)
  then show ?thesis
    by (cases xs)
      (simp_all add: extractReply_def first_match_def probes_def candidate_keys_def
        js_or_def js_and_def)
qed (simp_all add: extractReply_def first_match_def probes_def candidate_keys_def
      js_or_def js_and_def)

lemma find_first_index:
  "j < length xs \<Longrightarrow> P (xs ! j) \<Longrightarrow> (\<forall>m<j. \<not> P (xs ! m)) \<Longrightarrow>
   find P (xs @ ys) = Some (xs ! j)"
proof (induction xs arbitrary: j)
  case Nil
  then show ?case by simp
next
  case (Cons x xs)
  show ?case
  proof (cases j)
    case 0
    with Cons.prems show ?thesis by simp
  next
    case (Suc k)
    from Cons.prems Suc have nx: "\<not> P x" by auto
    from Cons.prems Suc have "k < length xs" "P (xs ! k)" "\<forall>m<k. \<not> P (xs ! m)" by auto
    then have "find P (xs @ ys) = Some (xs ! k)" by (rule Cons.IH)
    with nx Suc show ?thesis by simp
  qed
qed

text \<open>
  Claim C3.  The extractor probes the payload shapes in the declared order (raw string;
  the keys reply, message, text, answer, output, response, data; the first array
  element's reply; the first array element's nested json.reply) and returns the first
  match: on every decoded payload other than \<open>null\<close> (where reading a property throws)
  the code's chain of \<open>||\<close> agrees with \<open>first_match\<close>, and the payload
  \<open>{ message: "x", text: "y" }\<close> yields \<open>"x"\<close>.
\<close>

theorem extractReply_probe_order:
  "(d \<noteq> JNull \<and> d \<noteq> JUndefined \<longrightarrow> extractReply d = Inr (first_match d)) \<and>
   extractReply (JObj [(js ''message'', JStr (js ''x'')), (js ''text'', JStr (js ''y''))])
     = Inr (JStr (js ''x''))"
proof (intro conjI impI)
  assume "d \<noteq> JNull \<and> d \<noteq> JUndefined"
  then show "extractReply d = Inr (first_match d)"
    by (simp add: extractReply_first_match)
next
  show "extractReply (JObj [(js ''message'', JStr (js ''x'')), (js ''text'', JStr (js ''y''))])
          = Inr (JStr (js ''x''))"
    by (simp add: extractReply_def js_or_def js_def)
qed

theorem extractReply_probe_order_witness:
  "JArr [JObj [(js ''json'', JObj [(js ''reply'', JStr (js ''hi''))])]] \<noteq> JNull \<and>
   JArr [JObj [(js ''json'', JObj [(js ''reply'', JStr (js ''hi''))])]] \<noteq> JUndefined \<and>
   extractReply (JArr [JObj [(js ''json'', JObj [(js ''reply'', JStr (js ''hi''))])]])
     = Inr (JStr (js ''hi'')) \<and>
   first_match (JArr [JObj [(js ''json'', JObj [(js ''reply'', JStr (js ''hi''))])]])
     = JStr (js ''hi'')"
  using extractReply_probe_order
    [of "JArr [JObj [(js ''json'', JObj [(js ''reply'', JStr (js ''hi''))])]]"]
  by (simp add: first_match_def probes_def candidate_keys_def js_def)

text \<open>
  Claim C9, as stated, at the payload \<open>{ reply: "", message: "y", text: "z" }\<close>: the
  earlier key reply holds a falsy value and the later key text holds a truthy one, yet
  the value returned is that of message, the first truthy candidate.
\<close>

theorem extractReply_later_truthy_counterexample:
  "get_prop (JObj [(js ''reply'', JStr []), (js ''message'', JStr (js ''y'')),
                   (js ''text'', JStr (js ''z''))]) (js ''reply'') = JStr [] \<and>
   \<not> truthy (JStr []) \<and>
   get_prop (JObj [(js ''reply'', JStr []), (js ''message'', JStr (js ''y'')),
                   (js ''text'', JStr (js ''z''))]) (js ''text'') = JStr (js ''z'') \<and>
   truthy (JStr (js ''z'')) \<and>
   extractReply (JObj [(js ''reply'', JStr []), (js ''message'', JStr (js ''y'')),
                       (js ''text'', JStr (js ''z''))]) = Inr (JStr (js ''y'')) \<and>
   JStr (js ''y'') \<noteq> JStr (js ''z'')"
  by (simp add: extractReply_def js_or_def js_def)

text \<open>
  Claim C9, amended.  A candidate key that is present but holds a falsy value is skipped:
  for every object payload in which an earlier candidate key holds a falsy value, a later
  candidate key holds a truthy value, and no candidate key before the later one holds a
  truthy value, the later value is returned.
\<close>

theorem extractReply_skips_falsy:
  assumes "i < j" and "j < length candidate_keys"
    and "map_of kvs (candidate_keys ! i) = Some u" and "\<not> truthy u"
    and "map_of kvs (candidate_keys ! j) = Some v" and "truthy v"
    and "\<forall>m<j. \<not> truthy (get_prop (JObj kvs) (candidate_keys ! m))"
  shows "extractReply (JObj kvs) = Inr v"
proof -
  let ?xs = "map (\<lambda>k. get_prop (JObj kvs) k) candidate_keys"
  have len: "j < length ?xs" using assms(2) by simp
  have vj: "?xs ! j = v" using assms(2,5) by simp
  have before: "\<forall>m<j. \<not> truthy (?xs ! m)" using assms(2,7) by simp
  have "find truthy (?xs @ [JUndefined, JUndefined]) = Some (?xs ! j)"
    using len assms(6) before vj by (intro find_first_index) simp_all
  then have "first_match (JObj kvs) = v"
    using vj by (simp add: first_match_def probes_def comp_def)
  then show ?thesis by (simp add: extractReply_first_match)
qed

theorem extractReply_skips_falsy_witness:
  "extractReply (JObj [(js ''reply'', JStr []), (js ''message'', JStr (js ''y''))])
     = Inr (JStr (js ''y''))"
  using extractReply_skips_falsy
    [of 0 1 "[(js ''reply'', JStr []), (js ''message'', JStr (js ''y''))]"
       "JStr []" "JStr (js ''y'')"]
  by (simp add: candidate_keys_def js_def)

section \<open>Properties of the message formatter\<close>

lemma formatMessage_eq:
  "formatMessage doc t = (format_escaped (concat (map escape_unit t)), doc @ [t])"
  by (simp add: formatMessage_def escapeHtml_def createElement_def set_textContent_def
      innerHTML_def)

lemmas eval_defs = js_def is_line_terminator_def is_space_def trim_def
  lit_def one_of_def plus_of_def capture_def group_opt_def group_plus_def
  is_digit_def capture_text_def reference_def replace_all_def split_str_def
  dot_def match_newline_def bullet_class_def match_bullet_def match_items_def match_bold_def
  separator_class_def is_separator_def not_lt_def match_table_def escape_unit_def
  table_row_def convertToTable_def format_escaped_def Let_def replace_from.simps

text \<open>
  Claim C1.  On the lines \<open>a|b\<close>, \<open>---|---\<close>, \<open>1|2\<close> no table is produced: the line
  \<open>---|---\<close> is not recognised as a separator (the pattern wants a pipe at both ends)
  and is rendered as a body row, and as no line starts with a pipe the pattern that puts
  the table into the text finds no match, so the formatter returns the paragraph.  With
  a pipe at both ends of every line the table is produced and the separator dropped, but
  the paragraph's own \<open><p>\<close> and \<open></p>\<close> are taken for cells of the first and the last
  row.
\<close>

theorem table_example_not_converted:
  "fst (formatMessage [] (js ''a|b\<newline>---|---\<newline>1|2'')) = js ''<p>a|b<br>---|---<br>1|2</p>'' \<and>
   \<not> is_separator (js ''---|---'') \<and>
   table_row (js ''---|---'') 1 = js ''<tr><td>---</td><td>---</td></tr>'' \<and>
   is_separator (js ''|---|---|'') \<and>
   fst (formatMessage [] (js ''|a|b|\<newline>|---|---|\<newline>|1|2|'')) =
     js ''<table><tr><th><p></th><th>a</th><th>b</th></tr><tr><td>1</td><td>2</td><td></p></td></tr></table>''"
  unfolding formatMessage_eq fst_conv
  by (simp add: eval_defs cong: option.case_cong_weak list.case_cong_weak)

text \<open>
  Claim C4, as stated: formatting the empty string does emit a block.
\<close>

theorem format_empty_counterexample:
  "fst (formatMessage [] []) \<noteq> []"
  unfolding formatMessage_eq fst_conv
  by (simp add: eval_defs cong: option.case_cong_weak list.case_cong_weak)

text \<open>
  Claim C4, amended.  Formatting the empty string yields exactly one paragraph block,
  which is empty, and no other block.
\<close>

theorem format_empty:
  "fst (formatMessage doc []) = js ''<p></p>''"
  unfolding formatMessage_eq fst_conv
  by (simp add: eval_defs cong: option.case_cong_weak list.case_cong_weak)

text \<open>
  Claim C7.  Paragraphs that start with a dash become the items of one list, in order:
  \<open>- a\<close>, \<open>- b\<close>, \<open>- c\<close> in three paragraphs give one list of a, b, c.  Paragraphs
  that start with the bullet glyph U+2022 do not: the class of the pattern holds the
  characters U+00E2, U+20AC, U+00A2 in its place, and those do start an item.
\<close>

theorem bullet_glyph_not_recognised:
  "fst (formatMessage [] (js ''- a\<newline>\<newline>- b\<newline>\<newline>- c'')) =
     js ''<ul><li>a</li><li>b</li><li>c</li></ul>'' \<and>
   \<not> bullet_class 8226 \<and>
   fst (formatMessage [] ([8226] @ js '' a\<newline>\<newline>'' @ [8226] @ js '' b'')) =
     js ''<p>'' @ [8226] @ js '' a</p><p>'' @ [8226] @ js '' b</p>'' \<and>
   fst (formatMessage [] ([226] @ js '' a\<newline>\<newline>'' @ [8364] @ js '' b'')) =
     js ''<ul><li>a</li><li>b</li></ul>''"
  unfolding formatMessage_eq fst_conv
  by (simp add: eval_defs cong: option.case_cong_weak list.case_cong_weak)

section \<open>Properties of the webhook client\<close>

lemma sessionId_woken [simp]: "sessionId (sendMessage_woken m w) = sessionId w"
  by (simp add: sendMessage_woken_def finally_block_def sendMessage_enter_def)

lemma effects_woken: "effects (sendMessage_woken m w) = effects w @ [Request m (sessionId w)]"
  by (simp add: sendMessage_woken_def finally_block_def sendMessage_enter_def)

lemma settled_failed:
  "fails out \<Longrightarrow>
   sendMessage_settled cfg rc out w =
     (if rc < maxRetries cfg
      then Sleeping (w\<lparr>effects := effects w @ [Wait (retryDelay cfg * (rc + 1))]\<rparr>)
      else Completed Fulfilled (finally_block (showToast w)))"
  by (cases "attempt out") (simp_all add: sendMessage_settled_def fails_def)

lemma sendMessage_from_all_fail:
  "\<forall>k. rc \<le> k \<and> k \<le> maxRetries cfg \<longrightarrow> fails (env k) \<Longrightarrow> rc \<le> maxRetries cfg \<Longrightarrow>
   effects (snd (sendMessage_from cfg env m rc w)) =
     effects w @ concat (map (\<lambda>k. [Wait (retryDelay cfg * (k + 1)), Request m (sessionId w)]) [rc..<maxRetries cfg]) @ [Toast]
   \<and> messageHistory (snd (sendMessage_from cfg env m rc w)) = messageHistory w
   \<and> fst (sendMessage_from cfg env m rc w) = Fulfilled"
proof (induction cfg env m rc w rule: sendMessage_from.induct)
  case (1 cfg env message retryCount w)
  have f: "fails (env retryCount)" using "1.prems" by simp
  show ?case
  proof (cases "retryCount < maxRetries cfg")
    case True
    let ?w' = "w\<lparr>effects := effects w @ [Wait (retryDelay cfg * (retryCount + 1))]\<rparr>"
    let ?next = "sendMessage_from cfg env message (retryCount + 1) (sendMessage_woken message ?w')"
    have s: "sendMessage_settled cfg retryCount (env retryCount) w = Sleeping ?w'"
      using f True by (simp add: settled_failed)
    have ih: "effects (snd ?next) =
     effects (sendMessage_woken message ?w') @ concat (map (\<lambda>k. [Wait (retryDelay cfg * (k + 1)), Request message (sessionId (sendMessage_woken message ?w'))]) [retryCount + 1..<maxRetries cfg]) @ [Toast]
   \<and> messageHistory (snd ?next) = messageHistory (sendMessage_woken message ?w')
   \<and> fst ?next = Fulfilled"
      using "1.prems" True by (intro "1.IH"[OF s]) auto
    have up: "[retryCount..<maxRetries cfg] = retryCount # [retryCount + 1..<maxRetries cfg]"
      using True by (simp add: upt_conv_Cons)
    have mh: "messageHistory (sendMessage_woken message ?w') = messageHistory w"
      by (simp add: sendMessage_woken_def finally_block_def sendMessage_enter_def)
    show ?thesis
      using ih s mh
      by (simp add: up effects_woken sendMessage_from.simps[of cfg env message retryCount w]
          del: upt_Suc)
  next
    case False
    then have s: "sendMessage_settled cfg retryCount (env retryCount) w =
        Completed Fulfilled (finally_block (showToast w))"
      using f by (simp add: settled_failed)
    show ?thesis
      using s False
      by (simp add: finally_block_def showToast_def
          sendMessage_from.simps[of cfg env message retryCount w])
  qed
qed



lemma rotate_pairs: "a # concat (map (\<lambda>k. [f k, a]) xs) = concat (map (\<lambda>k. [a, f k]) xs) @ [a]"
  by (induction xs) auto

lemma count_requests_pairs:
  "length (filter is_request (concat (map (\<lambda>k. [Request m sid, Wait (f k)]) xs))) = length xs"
  by (induction xs) auto

lemma waits_pairs:
  "waits (concat (map (\<lambda>k. [Request m sid, Wait (f k)]) xs) @ [Request m sid, Toast]) = map f xs"
  by (induction xs) auto

lemma count_toasts_pairs:
  "length (filter (\<lambda>e. e = Toast) (concat (map (\<lambda>k. [Request m sid, Wait (f k)]) xs))) = 0"
  by (induction xs) auto

lemma sendMessage_all_fail_effects:
  assumes "\<forall>k\<le>maxRetries cfg. fails (env k)"
  shows "new_effects w (snd (sendMessage cfg env m w)) =
           concat (map (\<lambda>k. [Request m (sessionId w), Wait (retryDelay cfg * (k + 1))])
                     [0..<maxRetries cfg]) @
           [Request m (sessionId w), Toast]"
proof -
  let ?w1 = "sendMessage_enter m w"
  have e1: "effects ?w1 = effects w @ [Request m (sessionId w)]" and s1: "sessionId ?w1 = sessionId w"
    by (simp_all add: sendMessage_enter_def)
  have "effects (snd (sendMessage_from cfg env m 0 ?w1)) =
     effects ?w1 @ concat (map (\<lambda>k. [Wait (retryDelay cfg * (k + 1)), Request m (sessionId ?w1)]) [0..<maxRetries cfg]) @ [Toast]"
    using assms sendMessage_from_all_fail[of 0 cfg env m ?w1] by simp
  then have "effects (snd (sendMessage cfg env m w)) = effects w @ (Request m (sessionId w) # concat (map (\<lambda>k. [Wait (retryDelay cfg * (k + 1)), Request m (sessionId w)]) [0..<maxRetries cfg])) @ [Toast]"
    by (simp add: sendMessage_def e1 s1)
  then show ?thesis
    by (simp only: rotate_pairs new_effects_def) simp
qed

lemmas client_defs = run_def handleInput_def handleSubmit_def sendMessage_enter_def appendMessage_def
  sendMessage_settled_def sendMessage_woken_def finally_block_def attempt_def showToast_def
  remove_nth_def in_flight_def idle_def CONFIG_def Let_def

text \<open>
  Claim C2, as stated, with \<open>maxRetries = 3\<close> on a network where every request fails:
  after the fourth failure the toast is shown, and the promise of \<open>sendMessage\<close> is
  fulfilled, not rejected: no error reaches the caller.
\<close>

theorem sendMessage_no_error_to_caller_counterexample:
  "fst (sendMessage CONFIG unreachable (js ''hi'') (idle (js ''s''))) = Fulfilled \<and>
   fst (sendMessage CONFIG unreachable (js ''hi'') (idle (js ''s''))) \<noteq> Rejected NetworkError \<and>
   new_effects (idle (js ''s'')) (snd (sendMessage CONFIG unreachable (js ''hi'') (idle (js ''s'')))) =
     [Request (js ''hi'') (js ''s''), Wait 1000, Request (js ''hi'') (js ''s''), Wait 2000,
      Request (js ''hi'') (js ''s''), Wait 3000, Request (js ''hi'') (js ''s''), Toast]"
  by (simp add: sendMessage_def sendMessage_from.simps unreachable_def new_effects_def client_defs
      cong: suspension.case_cong_weak sum.case_cong_weak)

text \<open>
  Claim C2, amended.  For every \<open>maxRetries\<close> and \<open>retryDelay\<close>, when every attempt fails
  (transport error, non-success status, undecodable or empty reply), one send makes
  exactly \<open>maxRetries + 1\<close> requests, waits \<open>retryDelay * 1\<close>, ..., \<open>retryDelay *
  maxRetries\<close> before requests 2 to \<open>maxRetries + 1\<close>, and after the last failure
  shows the error toast once, appends no reply, and its promise is fulfilled, so that
  no error reaches the caller; with \<open>maxRetries = 3\<close> that is 4 requests with waits
  \<open>retryDelay * 1\<close>, \<open>retryDelay * 2\<close>, \<open>retryDelay * 3\<close>.
\<close>

theorem sendMessage_retry_backoff:
  assumes "\<forall>k\<le>maxRetries cfg. fails (env k)"
  shows "new_effects w (snd (sendMessage cfg env m w)) =
           concat (map (\<lambda>k. [Request m (sessionId w), Wait (retryDelay cfg * (k + 1))])
                     [0..<maxRetries cfg]) @
           [Request m (sessionId w), Toast]
       \<and> length (filter is_request (new_effects w (snd (sendMessage cfg env m w)))) = maxRetries cfg + 1
       \<and> waits (new_effects w (snd (sendMessage cfg env m w))) =
           map (\<lambda>k. retryDelay cfg * (k + 1)) [0..<maxRetries cfg]
       \<and> length (filter (\<lambda>e. e = Toast) (new_effects w (snd (sendMessage cfg env m w)))) = 1
       \<and> messageHistory (snd (sendMessage cfg env m w)) = messageHistory w
       \<and> fst (sendMessage cfg env m w) = Fulfilled
       \<and> (maxRetries cfg = 3 \<longrightarrow>
            new_effects w (snd (sendMessage cfg env m w)) =
              [Request m (sessionId w), Wait (retryDelay cfg * 1),
               Request m (sessionId w), Wait (retryDelay cfg * 2),
               Request m (sessionId w), Wait (retryDelay cfg * 3),
               Request m (sessionId w), Toast])"
proof -
  note e = sendMessage_all_fail_effects[OF assms, of w m]
  have mh: "messageHistory (snd (sendMessage cfg env m w)) = messageHistory w"
    and ok: "fst (sendMessage cfg env m w) = Fulfilled"
    using assms sendMessage_from_all_fail[of 0 cfg env m "sendMessage_enter m w"]
    by (simp_all add: sendMessage_def sendMessage_enter_def)
  have three: "[0..<3] = [0, 1, 2]" by (simp add: upt_rec)
  show ?thesis
    unfolding e using mh ok
    by (simp add: count_requests_pairs waits_pairs count_toasts_pairs three del: upt_Suc)
qed

theorem sendMessage_retry_backoff_witness:
  "new_effects (idle (js ''s'')) (snd (sendMessage CONFIG unreachable (js ''hi'') (idle (js ''s'')))) =
     [Request (js ''hi'') (js ''s''), Wait 1000, Request (js ''hi'') (js ''s''), Wait 2000,
      Request (js ''hi'') (js ''s''), Wait 3000, Request (js ''hi'') (js ''s''), Toast] \<and>
   fst (sendMessage CONFIG unreachable (js ''hi'') (idle (js ''s''))) = Fulfilled"
proof -
  have h: "\<forall>k\<le>maxRetries CONFIG. fails (unreachable k)"
    by (simp add: fails_def attempt_def unreachable_def)
  have three: "[0..<3] = [0, 1, 2]" by (simp add: upt_rec)
  show ?thesis
    using sendMessage_retry_backoff [OF h, of "idle (js ''s'')" "js ''hi''"]
    by (simp add: CONFIG_def idle_def three del: upt_Suc)
qed



lemma handleSubmit_while_loading: "isLoading w \<Longrightarrow> handleSubmit w = w"
  by (simp add: handleSubmit_def Let_def)

text \<open>
  Claim C10.  While \<open>isLoading\<close> is true, \<open>handleSubmit\<close> changes nothing
  (\<open>handleSubmit_while_loading\<close>).  But \<open>isLoading\<close> does not stay true for the whole
  send: when a retry starts, the \<open>finally\<close> block of the outer call runs as soon as
  the inner call has sent its request.  After a first failure and its wait, a request is
  in flight with \<open>isLoading\<close> false, and a second submission starts a second send
  chain beside the first.
\<close>

theorem second_send_during_retry:
  "isLoading (run CONFIG (idle (js ''s'')) [Input (js ''a''), Submit, FetchSettled 0 FetchRejected]) \<and>
   \<not> isLoading (run CONFIG (idle (js ''s'')) [Input (js ''a''), Submit, FetchSettled 0 FetchRejected, DelayElapsed 0]) \<and>
   in_flight (run CONFIG (idle (js ''s'')) [Input (js ''a''), Submit, FetchSettled 0 FetchRejected, DelayElapsed 0]) = 1 \<and>
   pending (run CONFIG (idle (js ''s''))
      [Input (js ''a''), Submit, FetchSettled 0 FetchRejected, DelayElapsed 0, Input (js ''b''), Submit])
    = [(js ''a'', 1, AwaitingFetch), (js ''b'', 0, AwaitingFetch)] \<and>
   in_flight (run CONFIG (idle (js ''s''))
      [Input (js ''a''), Submit, FetchSettled 0 FetchRejected, DelayElapsed 0, Input (js ''b''), Submit]) = 2"
  by (simp add: client_defs trim_def is_space_def js_def)

section \<open>The formatter writes safe markup\<close>

subsection \<open>Prefixes\<close>

lemma strip_prefix_Some: "strip_prefix p s = Some r \<longleftrightarrow> s = p @ r"
  by (induction p s rule: strip_prefix.induct) auto

lemma strip_prefix_append [simp]: "strip_prefix p (p @ r) = Some r"
  by (simp add: strip_prefix_Some)

lemma strip_first_Some: "strip_first ts s = Some r \<Longrightarrow> \<exists>t \<in> set ts. s = t @ r"
  by (induction ts) (auto simp: strip_prefix_Some split: option.splits)

subsection \<open>Safe markup as a grammar\<close>

lemma tokens_nonempty: "t \<in> set (markup_tags @ entities) \<Longrightarrow> t \<noteq> []"
  by (auto simp: markup_tags_def entities_def js_def)

lemma safe_markup_token:
  "t \<in> set (markup_tags @ entities) \<Longrightarrow> safe_markup (t @ s) = safe_markup s"
  by (auto simp: markup_tags_def entities_def js_def)

lemma safe_markup_plain: "plain c \<Longrightarrow> safe_markup (c # s) = safe_markup s"
  by (simp add: plain_def)

lemma wf_markup_safe: "wf_markup s \<Longrightarrow> safe_markup s"
proof (induction rule: wf_markup.induct)
  case wf_empty
  show ?case by simp
next
  case (wf_plain c s)
  then show ?case by (simp only: safe_markup_plain)
next
  case (wf_token t s)
  then show ?case by (simp only: safe_markup_token)
qed

lemma tags_start: "t \<in> set markup_tags \<Longrightarrow> hd t = 60"
  by (auto simp: markup_tags_def js_def)

lemma safe_markup_wf: "safe_markup s \<Longrightarrow> wf_markup s"
proof (induction s rule: safe_markup.induct)
  case 1
  show ?case by (rule wf_empty)
next
  case (2 c s)
  show ?case
  proof (cases "c = 60")
    case True
    with "2.prems" obtain r where r: "strip_first markup_tags (c # s) = Some r"
      and l: "length r < length (c # s)" and sr: "safe_markup r"
      by (auto split: option.splits if_splits)
    from strip_first_Some[OF r] obtain t where t: "t \<in> set markup_tags" "c # s = t @ r" by blast
    have "wf_markup r" using "2.IH"(1)[OF True r l sr] .
    then have "wf_markup (t @ r)" using t(1) by (intro wf_token) simp_all
    then show ?thesis using t(2) by simp
  next
    case False
    show ?thesis
    proof (cases "c = 38")
      case True
      with False "2.prems" obtain r where r: "strip_first entities (c # s) = Some r"
        and l: "length r < length (c # s)" and sr: "safe_markup r"
        by (auto split: option.splits if_splits)
      from strip_first_Some[OF r] obtain t where t: "t \<in> set entities" "c # s = t @ r" by blast
      have "wf_markup r" using "2.IH"(2)[OF False True r l sr] .
      then have "wf_markup (t @ r)" using t(1) by (intro wf_token) simp_all
      then show ?thesis using t(2) by simp
    next
      case c38: False
      with False "2.prems" have c62: "c \<noteq> 62" and ss: "safe_markup s" by (auto split: if_splits)
      have "wf_markup s" using "2.IH"(3)[OF False c38 c62 ss] .
      then show ?thesis using False c38 c62 by (intro wf_plain) (simp_all add: plain_def)
    qed
  qed
qed

lemma safe_markup_iff: "safe_markup s \<longleftrightarrow> wf_markup s"
  using safe_markup_wf wf_markup_safe by blast

lemma wf_append: "wf_markup a \<Longrightarrow> wf_markup b \<Longrightarrow> wf_markup (a @ b)"
proof (induction rule: wf_markup.induct)
  case wf_empty
  then show ?case by simp
next
  case (wf_plain c s)
  then show ?case by (simp add: wf_markup.wf_plain)
next
  case (wf_token t s)
  from wf_markup.wf_token[OF wf_token.hyps(1) wf_token.IH[OF wf_token.prems]]
  show ?case by simp
qed

lemma wf_single_token: "t \<in> set (markup_tags @ entities) \<Longrightarrow> wf_markup t"
  using wf_token[of t "[]"] wf_empty by simp

lemma wf_split:
  "wf_markup x \<Longrightarrow> x = a @ b \<Longrightarrow>
   a = [] \<or> b = [] \<or> \<not> nonfinal_char (last a) \<or> \<not> inner_char (hd b) \<Longrightarrow>
   wf_markup a \<and> wf_markup b"
proof (induction arbitrary: a rule: wf_markup.induct)
  case wf_empty
  then show ?case by (simp add: wf_markup.wf_empty)
next
  case (wf_plain c s)
  show ?case
  proof (cases a)
    case Nil
    with wf_plain show ?thesis by (auto intro: wf_markup.intros)
  next
    case (Cons c' a')
    with wf_plain.prems have s: "s = a' @ b" and c: "c' = c" by simp_all
    show ?thesis
    proof (cases "a' = []")
      case True
      with s wf_plain.hyps Cons c show ?thesis by (auto intro: wf_markup.intros)
    next
      case False
      with wf_plain.prems(2) Cons have "a' = [] \<or> b = [] \<or> \<not> nonfinal_char (last a') \<or> \<not> inner_char (hd b)"
        by simp
      from wf_plain.IH[OF s this] wf_plain.hyps(1) Cons c show ?thesis
        by (auto intro: wf_markup.intros)
    qed
  qed
next
  case (wf_token t s)
  from wf_token.prems(1) obtain us where
    "(t = a @ us \<and> us @ s = b) \<or> (t @ us = a \<and> s = us @ b)"
    by (auto simp: append_eq_append_conv2)
  then consider
    (inside) "t = a @ us" "us @ s = b" "us \<noteq> []" |
    (beyond) us' where "t @ us' = a" "s = us' @ b"
    by (cases "us = []") auto
  then show ?case
  proof cases
    case inside
    show ?thesis
    proof (cases "a = []")
      case True
      with wf_token.hyps wf_token.prems(1) show ?thesis
        by (auto intro: wf_markup.intros)
    next
      case False
      have "nonfinal_char (last a)"
        unfolding nonfinal_char_def using wf_token.hyps(1) inside False
        by (intro bexI[of _ t]) (auto simp: butlast_append)
      moreover have "inner_char (hd b)"
        unfolding inner_char_def using wf_token.hyps(1) inside False
        by (intro bexI[of _ t]) (cases a; auto)+
      moreover have "b \<noteq> []" using inside by auto
      ultimately show ?thesis using wf_token.prems(2) False by blast
    qed
  next
    case beyond
    show ?thesis
    proof (cases "us' = []")
      case True
      with beyond wf_token.hyps show ?thesis
        by (auto intro: wf_single_token)
    next
      case False
      with wf_token.prems(2) beyond have "us' = [] \<or> b = [] \<or> \<not> nonfinal_char (last us') \<or> \<not> inner_char (hd b)"
        by auto
      from wf_token.IH[OF beyond(2) this] wf_token.hyps(1) beyond(1) show ?thesis
        by (auto intro: wf_markup.intros)
    qed
  qed
qed

subsection \<open>Where safe markup may be cut\<close>

lemma inner_char_iff:
  "inner_char c \<longleftrightarrow> c \<in> set (js ''/>;abdeghilmnoprstu'')"
  unfolding inner_char_def markup_tags_def entities_def js_def by (simp, blast)

lemma nonfinal_char_iff:
  "nonfinal_char c \<longleftrightarrow> c \<in> set (js ''<&/abdeghilmnoprstu'')"
  unfolding nonfinal_char_def markup_tags_def entities_def js_def by (simp, blast)

lemma lt_not_inner [simp]: "\<not> inner_char 60" and amp_not_inner [simp]: "\<not> inner_char 38"
  by (simp_all add: inner_char_iff js_def)

lemma gt_not_nonfinal [simp]: "\<not> nonfinal_char 62" and semi_not_nonfinal [simp]: "\<not> nonfinal_char 59"
  by (simp_all add: nonfinal_char_iff js_def)

lemma outside_iff:
  "outside c \<longleftrightarrow> c \<notin> set (js ''<&/>;abdeghilmnoprstu'')"
  unfolding outside_def inner_char_iff nonfinal_char_iff js_def by auto

lemma outside_space: "is_space c \<Longrightarrow> outside c"
  unfolding outside_iff is_space_def js_def by auto

lemma outside_bullet: "bullet_class c \<Longrightarrow> outside c"
  unfolding outside_iff bullet_class_def js_def by auto

lemma outside_digit: "is_digit c \<Longrightarrow> outside c"
  unfolding outside_iff is_digit_def js_def by auto

lemma outside_chars [simp]:
  "outside 10" "outside 36" "outside 39" "outside 42" "outside 96" "outside 124" "outside 45"
  unfolding outside_iff js_def by simp_all

lemma outside_plain: "outside c \<Longrightarrow> plain c"
  unfolding outside_iff plain_def js_def by auto

lemma wf_cut_before:
  assumes "wf_markup (a @ c # b)" and "\<not> inner_char c"
  shows "wf_markup a \<and> wf_markup (c # b)"
proof (rule wf_split[OF assms(1)])
  show "a @ c # b = a @ c # b" by (rule refl)
  show "a = [] \<or> c # b = [] \<or> \<not> nonfinal_char (last a) \<or> \<not> inner_char (hd (c # b))"
    using assms(2) by simp
qed

lemma wf_cut_after:
  assumes "wf_markup (a @ c # b)" and "\<not> nonfinal_char c"
  shows "wf_markup (a @ [c]) \<and> wf_markup b"
proof (rule wf_split[OF assms(1)])
  show "a @ c # b = (a @ [c]) @ b" by simp
  show "a @ [c] = [] \<or> b = [] \<or> \<not> nonfinal_char (last (a @ [c])) \<or> \<not> inner_char (hd b)"
    using assms(2) by simp
qed

lemma wf_cut_outside:
  assumes "wf_markup (a @ c # b)" and "outside c"
  shows "wf_markup a" and "wf_markup b" and "wf_markup (a @ [c])" and "wf_markup (c # b)"
proof -
  from assms have i: "\<not> inner_char c" and n: "\<not> nonfinal_char c" by (simp_all add: outside_def)
  from wf_cut_before[OF assms(1) i] show "wf_markup a" and "wf_markup (c # b)" by simp_all
  from wf_cut_after[OF assms(1) n] show "wf_markup b" and "wf_markup (a @ [c])" by simp_all
qed

lemma wf_outside_all: "\<forall>c \<in> set a. outside c \<Longrightarrow> wf_markup a"
  by (induction a) (auto intro: wf_markup.intros outside_plain)

text \<open>A run of outside characters can be taken out of safe markup.\<close>

lemma wf_cut_run:
  "wf_markup (a @ w @ b) \<Longrightarrow> \<forall>c \<in> set w. outside c \<Longrightarrow> w \<noteq> [] \<Longrightarrow> wf_markup a \<and> wf_markup b"
proof (induction w arbitrary: a)
  case Nil
  then show ?case by simp
next
  case (Cons c w)
  from Cons.prems have o: "outside c" by simp
  from Cons.prems(1) have w1: "wf_markup (a @ c # (w @ b))" by simp
  note cut = wf_cut_outside[OF w1 o]
  show ?case
  proof (cases "w = []")
    case True
    with cut show ?thesis by simp
  next
    case False
    have "wf_markup ((a @ [c]) @ w @ b)" using Cons.prems(1) by simp
    from Cons.IH[OF this] Cons.prems(2) False have "wf_markup b" by simp
    with cut(1) show ?thesis by simp
  qed
qed

lemma wf_tag [simp]:
  "wf_markup (js ''<p>'')" "wf_markup (js ''</p>'')" "wf_markup (js ''<br>'')"
  "wf_markup (js ''<li>'')" "wf_markup (js ''</li>'')" "wf_markup (js ''<ul>'')"
  "wf_markup (js ''</ul>'')" "wf_markup (js ''<strong>'')" "wf_markup (js ''</strong>'')"
  "wf_markup (js ''<table>'')" "wf_markup (js ''</table>'')" "wf_markup (js ''<tr>'')"
  "wf_markup (js ''</tr>'')" "wf_markup (js ''<th>'')" "wf_markup (js ''</th>'')"
  "wf_markup (js ''<td>'')" "wf_markup (js ''</td>'')"
  by (rule wf_single_token, simp add: markup_tags_def)+

text \<open>A literal that starts with \<open><\<close> and ends with \<open>>\<close> stands between safe markup.\<close>

lemma wf_cut_tag:
  assumes "wf_markup (a @ p @ b)" and "hd p = 60" and "last p = 62" and "p \<noteq> []"
  shows "wf_markup a" and "wf_markup p" and "wf_markup b"
proof -
  from assms(2,4) obtain p' where p: "p = 60 # p'" by (cases p) auto
  from assms(1) p have "wf_markup (a @ 60 # (p' @ b))" by simp
  from wf_cut_before[OF this] have a: "wf_markup a" and pb: "wf_markup (p @ b)" using p by simp_all
  from assms(3,4) obtain q where q: "p = q @ [62]" by (metis append_butlast_last_id)
  from pb q have "wf_markup (q @ 62 # b)" by simp
  from wf_cut_after[OF this] have "wf_markup p" and "wf_markup b" using q by simp_all
  with a show "wf_markup a" and "wf_markup p" and "wf_markup b" by simp_all
qed

subsection \<open>Escaping\<close>

lemma wf_escape_unit: "wf_markup (escape_unit c)"
proof -
  have e: "js ''&amp;'' \<in> set (markup_tags @ entities)" "js ''&lt;'' \<in> set (markup_tags @ entities)"
    "js ''&gt;'' \<in> set (markup_tags @ entities)" "js ''&nbsp;'' \<in> set (markup_tags @ entities)"
    by (simp_all add: entities_def)
  show ?thesis
    unfolding escape_unit_def
    by (auto intro: wf_single_token e wf_markup.intros simp: plain_def)
qed

lemma wf_escape: "wf_markup (concat (map escape_unit t))"
  by (induction t) (auto intro: wf_append wf_escape_unit wf_markup.intros)

text \<open>What follows an \<open>&\<close> in safe markup is safe markup.\<close>

lemma wf_after_amp:
  assumes "wf_markup (38 # u)"
  shows "wf_markup u"
  using assms
proof (rule wf_markup.cases)
  assume "38 # u = []"
  then show ?thesis by simp
next
  fix c s
  assume "38 # u = c # s" and "plain c"
  then show ?thesis by (simp add: plain_def)
next
  fix t s
  assume eq: "38 # u = t @ s" and t: "t \<in> set (markup_tags @ entities)" and s: "wf_markup s"
  from eq tokens_nonempty[OF t] have "hd t = 38"
    by (cases t) auto
  with t have "t \<in> set entities"
    using tags_start by fastforce
  then obtain t' where t': "t = 38 # t'" "\<forall>c \<in> set t'. plain c"
    by (auto simp: entities_def js_def plain_def)
  with eq have u: "u = t' @ s" by simp
  have "wf_markup (t' @ s)" using t'(2) s
    by (induction t') (auto intro: wf_markup.intros)
  with u show ?thesis by simp
qed

subsection \<open>What a successful matcher has read\<close>

lemma lit_Some: "lit p s k = Some x \<Longrightarrow> \<exists>r. s = p @ r \<and> k r = Some x"
  by (auto simp: lit_def strip_prefix_Some split: option.splits)

lemma one_of_Some: "one_of P s k = Some x \<Longrightarrow> \<exists>c r. s = c # r \<and> P c \<and> k r = Some x"
  by (auto simp: one_of_def split: list.splits if_splits)

lemma star_Some:
  "star P s k = Some x \<Longrightarrow> \<exists>a r. s = a @ r \<and> (\<forall>c \<in> set a. P c) \<and> k r = Some x"
proof (induction s)
  case Nil
  then show ?case by simp
next
  case (Cons c s)
  show ?case
  proof (cases "P c \<and> star P s k \<noteq> None")
    case True
    with Cons.prems have "star P s k = Some x" by (auto split: option.splits)
    from Cons.IH[OF this] obtain a r where "s = a @ r" "\<forall>c \<in> set a. P c" "k r = Some x" by blast
    with True have "c # s = (c # a) @ r \<and> (\<forall>c \<in> set (c # a). P c) \<and> k r = Some x" by simp
    then show ?thesis by blast
  next
    case False
    with Cons.prems have "k (c # s) = Some x" by (auto split: option.splits if_splits)
    then have "c # s = [] @ (c # s) \<and> (\<forall>c \<in> set []. P c) \<and> k (c # s) = Some x" by simp
    then show ?thesis by blast
  qed
qed

lemma star_total:
  assumes "\<forall>r. k r \<noteq> None"
  shows "star P s k = k (dropWhile P s)"
proof (induction s)
  case Nil
  show ?case by simp
next
  case (Cons c s)
  have "star P s k \<noteq> None" using Cons.IH assms by simp
  then show ?case using Cons.IH by (auto split: option.splits)
qed

lemma plus_of_Some:
  "plus_of P s k = Some x \<Longrightarrow> \<exists>a r. s = a @ r \<and> a \<noteq> [] \<and> (\<forall>c \<in> set a. P c) \<and> k r = Some x"
proof -
  assume "plus_of P s k = Some x"
  then obtain c r where s: "s = c # r" "P c" and st: "star P r k = Some x"
    unfolding plus_of_def by (blast dest: one_of_Some)
  from star_Some[OF st] obtain a r' where "r = a @ r'" "\<forall>c \<in> set a. P c" "k r' = Some x" by blast
  with s have "s = (c # a) @ r' \<and> c # a \<noteq> [] \<and> (\<forall>c \<in> set (c # a). P c) \<and> k r' = Some x" by simp
  then show ?thesis by blast
qed

lemma plus_of_total:
  "\<forall>r. k r \<noteq> None \<Longrightarrow> plus_of P s k = Some x \<Longrightarrow>
   \<exists>a. s = a @ dropWhile P s \<and> a \<noteq> [] \<and> (\<forall>c \<in> set a. P c) \<and> k (dropWhile P s) = Some x"
proof -
  assume tot: "\<forall>r. k r \<noteq> None" and "plus_of P s k = Some x"
  then obtain c r where s: "s = c # r" "P c" and st: "star P r k = Some x"
    unfolding plus_of_def by (blast dest: one_of_Some)
  from st star_total[OF tot, of P r] have k: "k (dropWhile P r) = Some x" by simp
  have "s = (c # takeWhile P r) @ dropWhile P s" using s by simp
  moreover have "\<forall>c \<in> set (c # takeWhile P r). P c" using s(2) by (auto dest: set_takeWhileD)
  moreover have "k (dropWhile P s) = Some x" using k s by simp
  ultimately show ?thesis by blast
qed

lemma star_lazy_Some:
  "star_lazy P s k = Some x \<Longrightarrow> \<exists>a r. s = a @ r \<and> (\<forall>c \<in> set a. P c) \<and> k r = Some x"
proof (induction s)
  case Nil
  then show ?case by simp
next
  case (Cons c s)
  show ?case
  proof (cases "k (c # s)")
    case (Some y)
    with Cons.prems have "k (c # s) = Some x" by simp
    then have "c # s = [] @ (c # s) \<and> (\<forall>c \<in> set []. P c) \<and> k (c # s) = Some x" by simp
    then show ?thesis by blast
  next
    case None
    with Cons.prems have c: "P c" and "star_lazy P s k = Some x" by (auto split: if_splits)
    from Cons.IH[OF this(2)] obtain a r where "s = a @ r" "\<forall>c \<in> set a. P c" "k r = Some x" by blast
    with c have "c # s = (c # a) @ r \<and> (\<forall>c \<in> set (c # a). P c) \<and> k r = Some x" by simp
    then show ?thesis by blast
  qed
qed

lemma capture_Some:
  assumes "capture m s k = Some x"
    and "\<And>k' x'. m s k' = Some x' \<Longrightarrow> \<exists>a r. s = a @ r \<and> Q a \<and> k' r = Some x'"
  shows "\<exists>a r. s = a @ r \<and> Q a \<and> k a r = Some x"
proof -
  from assms(1) have "m s (\<lambda>r. k (take (length s - length r) s) r) = Some x"
    by (simp add: capture_def)
  from assms(2)[OF this] obtain a r where "s = a @ r" "Q a" "k (take (length s - length r) s) r = Some x"
    by blast
  then have "s = a @ r \<and> Q a \<and> k a r = Some x" by simp
  then show ?thesis by blast
qed

lemma group_opt_Some:
  assumes "group_opt m s k = Some x"
    and "\<And>k' x'. m s k' = Some x' \<Longrightarrow> \<exists>a r. s = a @ r \<and> Q a \<and> k' r = Some x'"
  shows "(\<exists>a r. s = a @ r \<and> Q a \<and> k (Some a) r = Some x) \<or> k None s = Some x"
proof (cases "capture m s (\<lambda>g r. k (Some g) r)")
  case None
  with assms(1) show ?thesis by (simp add: group_opt_def)
next
  case (Some y)
  with assms(1) have "capture m s (\<lambda>g r. k (Some g) r) = Some x" by (simp add: group_opt_def)
  from capture_Some[OF this assms(2)] show ?thesis by blast
qed

lemma group_star_Some:
  assumes body: "\<And>s' k' x'. m s' k' = Some x' \<Longrightarrow> \<exists>a r. s' = a @ r \<and> Q a \<and> k' r = Some x'"
  shows "group_star n m s prev k = Some x \<Longrightarrow>
         \<exists>as r g. s = concat as @ r \<and> (\<forall>a \<in> set as. Q a) \<and> k g r = Some x \<and>
                  (as = [] \<and> g = prev \<or> as \<noteq> [] \<and> g = Some (last as))"
proof (induction n arbitrary: s prev)
  case 0
  then have "s = concat [] @ s \<and> (\<forall>a \<in> set []. Q a) \<and> k prev s = Some x" by simp
  then show ?case by blast
next
  case (Suc n)
  let ?iter = "capture m s (\<lambda>g r. if g = [] then None else group_star n m r (Some g) k)"
  show ?case
  proof (cases ?iter)
    case None
    with Suc.prems have "k prev s = Some x" by simp
    then have "s = concat [] @ s \<and> (\<forall>a \<in> set []. Q a) \<and> k prev s = Some x" by simp
    then show ?thesis by blast
  next
    case (Some y)
    with Suc.prems have "?iter = Some x" by simp
    from capture_Some[OF this body] obtain a r where
      a: "s = a @ r" "Q a" and it: "(if a = [] then None else group_star n m r (Some a) k) = Some x"
      by blast
    from it have "group_star n m r (Some a) k = Some x" by (auto split: if_splits)
    from Suc.IH[OF this] obtain as r' g where
      as: "r = concat as @ r'" "\<forall>a \<in> set as. Q a" "k g r' = Some x"
        "as = [] \<and> g = Some a \<or> as \<noteq> [] \<and> g = Some (last as)"
      by blast
    have "s = concat (a # as) @ r' \<and> (\<forall>b \<in> set (a # as). Q b) \<and> k g r' = Some x \<and>
          a # as \<noteq> [] \<and> g = Some (last (a # as))"
      using a as by auto
    then show ?thesis by blast
  qed
qed

lemma group_plus_Some:
  assumes "group_plus m s k = Some x"
    and body: "\<And>s' k' x'. m s' k' = Some x' \<Longrightarrow> \<exists>a r. s' = a @ r \<and> Q a \<and> k' r = Some x'"
  shows "\<exists>as r. as \<noteq> [] \<and> s = concat as @ r \<and> (\<forall>a \<in> set as. Q a) \<and>
                k (Some (last as)) r = Some x"
proof -
  from assms(1) have "capture m s (\<lambda>g r. group_star (length r) m r (Some g) k) = Some x"
    by (simp add: group_plus_def)
  from capture_Some[OF this body] obtain a r where
    a: "s = a @ r" "Q a" and it: "group_star (length r) m r (Some a) k = Some x"
    by blast
  from group_star_Some[OF body it] obtain as r' g where
    as: "r = concat as @ r'" "\<forall>a \<in> set as. Q a" "k g r' = Some x"
      "as = [] \<and> g = Some a \<or> as \<noteq> [] \<and> g = Some (last as)"
    by blast
  have "a # as \<noteq> [] \<and> s = concat (a # as) @ r' \<and> (\<forall>b \<in> set (a # as). Q b) \<and>
        k (Some (last (a # as))) r' = Some x"
    using a as by auto
  then show ?thesis by blast
qed

subsection \<open>Splitting\<close>

lemma split_from_wf:
  "sep \<noteq> [] \<Longrightarrow> \<not> inner_char (hd sep) \<Longrightarrow> \<not> nonfinal_char (last sep) \<Longrightarrow>
   wf_markup (cur @ s) \<Longrightarrow> \<forall>piece \<in> set (split_from sep cur s). wf_markup piece"
proof (induction sep cur s rule: split_from.induct)
  case (1 sep cur)
  then show ?case by simp
next
  case (2 sep cur c cs)
  note sep = "2.prems"(1,2,3)
  show ?case
  proof (cases "strip_prefix sep (c # cs)")
    case None
    from "2.prems" have "wf_markup ((cur @ [c]) @ cs)" by simp
    from "2.IH"(1)[OF None sep this] None show ?thesis by simp
  next
    case (Some r)
    then have eq: "c # cs = sep @ r" by (simp add: strip_prefix_Some)
    show ?thesis
    proof (cases "length r < length (c # cs)")
      case True
      from "2.prems"(4) eq have w: "wf_markup (cur @ sep @ r)" by simp
      from sep(1) have hs: "hd (sep @ r) = hd sep" by simp
      have "wf_markup cur \<and> wf_markup (sep @ r)"
        by (rule wf_split[OF w refl]) (use sep hs in auto)
      then have c1: "wf_markup cur" and sr: "wf_markup (sep @ r)" by simp_all
      have "wf_markup sep \<and> wf_markup r"
        by (rule wf_split[OF sr refl]) (use sep in auto)
      then have "wf_markup ([] @ r)" by simp
      from "2.IH"(2)[OF Some True sep this] c1 Some True show ?thesis by simp
    next
      case False
      from "2.prems" have "wf_markup ((cur @ [c]) @ cs)" by simp
      from "2.IH"(3)[OF Some False sep this] Some False show ?thesis by simp
    qed
  qed
qed

lemma split_str_wf:
  "sep \<noteq> [] \<Longrightarrow> \<not> inner_char (hd sep) \<Longrightarrow> \<not> nonfinal_char (last sep) \<Longrightarrow> wf_markup s \<Longrightarrow>
   piece \<in> set (split_str s sep) \<Longrightarrow> wf_markup piece"
  using split_from_wf[of sep "[]" s] by (simp add: split_str_def)

subsection \<open>Trimming\<close>

lemma wf_dropWhile_outside:
  "wf_markup s \<Longrightarrow> (\<And>c. P c \<Longrightarrow> outside c) \<Longrightarrow> wf_markup (dropWhile P s)"
proof (induction s)
  case Nil
  then show ?case by simp
next
  case (Cons c s)
  show ?case
  proof (cases "P c")
    case True
    then have "outside c" by (rule Cons.prems(2))
    from wf_cut_outside(2)[of "[]" c s] Cons.prems(1) this have "wf_markup s" by simp
    from Cons.IH[OF this Cons.prems(2)] True show ?thesis by simp
  next
    case False
    with Cons.prems(1) show ?thesis by simp
  qed
qed

lemma wf_rev_dropWhile_outside:
  "wf_markup s \<Longrightarrow> (\<And>c. P c \<Longrightarrow> outside c) \<Longrightarrow> wf_markup (rev (dropWhile P (rev s)))"
proof (induction s rule: rev_induct)
  case Nil
  then show ?case by simp
next
  case (snoc c s)
  show ?case
  proof (cases "P c")
    case True
    then have "outside c" by (rule snoc.prems(2))
    from wf_cut_outside(1)[of s c "[]"] snoc.prems(1) this have "wf_markup s" by simp
    from snoc.IH[OF this snoc.prems(2)] True show ?thesis by simp
  next
    case False
    with snoc.prems(1) show ?thesis by simp
  qed
qed

lemma wf_trim: "wf_markup s \<Longrightarrow> wf_markup (trim s)"
  unfolding trim_def
  by (intro wf_rev_dropWhile_outside wf_dropWhile_outside outside_space)

subsection \<open>Replacement texts\<close>

lemma wf_capture_text:
  assumes "wf_caps caps" and "1 \<le> n" and "n \<le> length caps"
  shows "wf_markup (capture_text caps n)"
proof -
  from assms(2,3) have "caps ! (n - 1) \<in> set caps" by simp
  with assms(1) show ?thesis
    by (auto simp: wf_caps_def capture_text_def wf_empty split: option.splits)
qed

lemma wf_dollar:
  assumes "wf_markup (Y @ 36 # u)"
  shows "wf_markup Y" and "wf_markup u"
  using wf_cut_outside[OF assms] by simp_all

lemma wf_dollar_outside:
  assumes "wf_markup (Y @ 36 # d # u)" and "outside d"
  shows "wf_markup Y" and "wf_markup u" and "wf_markup (d # u)"
proof -
  from wf_dollar[OF assms(1)] show "wf_markup Y" and du: "wf_markup (d # u)" by simp_all
  from wf_cut_outside(2)[of "[]" d u] du assms(2) show "wf_markup u" by simp
qed

lemma reference_wf:
  assumes w: "wf_markup (Y @ c # t)"
    and m: "wf_markup matched" and p: "wf_markup pre" and f: "wf_markup post"
    and caps: "wf_caps caps"
  shows "wf_markup (Y @ fst (reference (c # t) matched pre post caps) @
           drop (snd (reference (c # t) matched pre post caps)) t)"
proof (cases t)
  case Nil
  with w show ?thesis by (simp add: reference_def)
next
  case (Cons d u)
  note t = Cons
  show ?thesis
  proof (cases "c = 36")
    case False
    with w t show ?thesis by (simp add: reference_def)
  next
    case True
    note c = True
    from w t c have w': "wf_markup (Y @ 36 # d # u)" by simp
    note Yw = wf_dollar(1)[OF w']
    have du: "wf_markup (d # u)" using wf_dollar(2)[OF w'] .
    consider (dollar) "d = 36" | (left) "d = 96" | (amp) "d = 38" | (right) "d = 39"
      | (digit) "d \<noteq> 36" "d \<noteq> 96" "d \<noteq> 38" "d \<noteq> 39" "is_digit d"
      | (other) "d \<noteq> 36" "d \<noteq> 96" "d \<noteq> 38" "d \<noteq> 39" "\<not> is_digit d"
      by blast
    then show ?thesis
    proof cases
      case dollar
      have "outside d" using dollar by simp
      from wf_dollar_outside[OF w' this] have "wf_markup u" by simp
      moreover have "wf_markup (Y @ [36])" using wf_cut_outside(3)[OF w'] by simp
      ultimately have "wf_markup ((Y @ [36]) @ u)" by (rule wf_append[rotated])
      with t c dollar show ?thesis by (simp add: reference_def)
    next
      case left
      have "outside d" using left by simp
      from wf_dollar_outside[OF w' this] have "wf_markup u" by simp
      with Yw p have "wf_markup (Y @ pre @ u)" by (intro wf_append)
      with t c left show ?thesis by (simp add: reference_def)
    next
      case amp
      from du amp have "wf_markup u" by (simp add: wf_after_amp)
      with Yw m have "wf_markup (Y @ matched @ u)" by (intro wf_append)
      with t c amp show ?thesis by (simp add: reference_def)
    next
      case right
      have "outside d" using right by simp
      from wf_dollar_outside[OF w' this] have "wf_markup u" by simp
      with Yw f have "wf_markup (Y @ post @ u)" by (intro wf_append)
      with t c right show ?thesis by (simp add: reference_def)
    next
      case other
      with w t c show ?thesis by (simp add: reference_def)
    next
      case digit
      have od: "outside d" using digit(5) by (rule outside_digit)
      from wf_dollar_outside[OF w' od] have uw: "wf_markup u" by simp
      show ?thesis
      proof (cases u)
        case Nil
        show ?thesis
        proof (cases "1 \<le> d - 48 \<and> d - 48 \<le> length caps")
          case True
          then have "wf_markup (capture_text caps (d - 48))" using caps by (simp add: wf_capture_text)
          with Yw have "wf_markup (Y @ capture_text caps (d - 48))" by (intro wf_append)
          with t c digit Nil True show ?thesis by (simp add: reference_def)
        next
          case False
          with w t c digit Nil show ?thesis by (auto simp: reference_def)
        qed
      next
        case (Cons e v)
        note u = Cons
        let ?n2 = "(d - 48) * 10 + (e - 48)"
        show ?thesis
        proof (cases "is_digit e \<and> ?n2 \<le> length caps")
          case True
          note two = True
          then have "outside e" by (simp add: outside_digit)
          from wf_cut_outside(2)[of "[]" e v] uw u this have vw: "wf_markup v" by simp
          show ?thesis
          proof (cases "1 \<le> ?n2")
            case True
            then have "wf_markup (capture_text caps ?n2)" using caps two by (simp add: wf_capture_text)
            with Yw vw have "wf_markup (Y @ capture_text caps ?n2 @ v)" by (intro wf_append)
            with t c digit u two True show ?thesis by (simp add: reference_def)
          next
            case False
            with w t c digit u two show ?thesis by (auto simp: reference_def)
          qed
        next
          case False
          note one = False
          show ?thesis
          proof (cases "1 \<le> d - 48 \<and> d - 48 \<le> length caps")
            case True
            then have "wf_markup (capture_text caps (d - 48))" using caps by (simp add: wf_capture_text)
            with Yw uw have "wf_markup (Y @ capture_text caps (d - 48) @ u)" by (intro wf_append)
            with t c digit u one True show ?thesis by (auto simp: reference_def)
          next
            case False
            with w t c digit u one show ?thesis by (auto simp: reference_def)
          qed
        qed
      qed
    qed
  qed
qed

lemma substitute_wf:
  assumes m: "wf_markup matched" and p: "wf_markup pre" and f: "wf_markup post"
    and caps: "wf_caps caps"
  shows "wf_markup (Y @ t) \<Longrightarrow> wf_markup (Y @ substitute t matched pre post caps)"
proof (induction "length t" arbitrary: t Y rule: less_induct)
  case less
  show ?case
  proof (cases t)
    case Nil
    with less.prems show ?thesis by simp
  next
    case (Cons c t')
    let ?r = "reference (c # t') matched pre post caps"
    from less.prems Cons have "wf_markup (Y @ c # t')" by simp
    from reference_wf[OF this m p f caps]
    have "wf_markup ((Y @ fst ?r) @ drop (snd ?r) t')" by simp
    moreover have "length (drop (snd ?r) t') < length t" using Cons by simp
    ultimately have "wf_markup ((Y @ fst ?r) @ substitute (drop (snd ?r) t') matched pre post caps)"
      by (rule less.hyps[rotated])
    with Cons show ?thesis by simp
  qed
qed

subsection \<open>Replacing every match of an aligned matcher\<close>

lemma alignedD:
  assumes "aligned m" and "wf_markup (pre @ s)" and "m s = Some (caps, rest)"
  obtains matched where "s = matched @ rest" "wf_markup pre" "wf_markup matched"
    "wf_markup rest" "wf_caps caps"
  using assms unfolding aligned_def by blast

lemma replace_from_wf:
  assumes al: "aligned m"
    and tw: "\<And>matched pre post caps.
      wf_markup matched \<Longrightarrow> wf_markup pre \<Longrightarrow> wf_markup post \<Longrightarrow> wf_caps caps \<Longrightarrow>
      wf_markup (substitute template matched pre post caps)"
  shows "wf_markup (p @ s) \<Longrightarrow> wf_markup (X @ s) \<Longrightarrow>
         wf_markup (X @ replace_from m template p s)"
proof (induction "length s" arbitrary: s p X rule: less_induct)
  case less
  show ?case
  proof (cases "m s")
    case None
    show ?thesis
    proof (cases s)
      case Nil
      with None less.prems show ?thesis by (subst replace_from.simps) simp
    next
      case (Cons c cs)
      have "wf_markup ((X @ [c]) @ replace_from m template (p @ [c]) cs)"
        by (rule less.hyps) (use less.prems Cons in simp_all)
      with None Cons show ?thesis by (subst replace_from.simps) simp
    qed
  next
    case (Some res)
    obtain caps rest where res: "res = (caps, rest)" by (cases res)
    with Some have ms: "m s = Some (caps, rest)" by simp
    from alignedD[OF al less.prems(1) ms] obtain matched where
      s: "s = matched @ rest" and pw: "wf_markup p" and mw: "wf_markup matched"
      and rw: "wf_markup rest" and cw: "wf_caps caps"
      by blast
    from alignedD[OF al less.prems(2) ms] have Xw: "wf_markup X"
      by blast
    have tk: "take (length s - length rest) s = matched" using s by simp
    let ?out = "substitute template matched p rest caps"
    have ow: "wf_markup ?out" using mw pw rw cw by (rule tw)
    show ?thesis
    proof (cases "length rest < length s")
      case True
      have "wf_markup ((X @ ?out) @ replace_from m template (p @ matched) rest)"
      proof (rule less.hyps[OF True])
        show "wf_markup ((p @ matched) @ rest)" using less.prems(1) s by simp
        show "wf_markup ((X @ ?out) @ rest)" using Xw ow rw by (simp add: wf_append)
      qed
      with ms tk True show ?thesis
        by (subst replace_from.simps) (simp add: Let_def)
    next
      case False
      show ?thesis
      proof (cases s)
        case Nil
        with ms tk False Xw ow show ?thesis
          by (subst replace_from.simps) (simp add: Let_def wf_append)
      next
        case (Cons c cs)
        have "wf_markup ((X @ ?out @ [c]) @ replace_from m template (p @ [c]) cs)"
        proof (rule less.hyps)
          show "length cs < length s" using Cons by simp
          show "wf_markup ((p @ [c]) @ cs)" using less.prems(1) Cons by simp
          from False s have "matched = []" by simp
          with s rw Cons have "wf_markup (c # cs)" by simp
          with Xw ow have "wf_markup (X @ ?out @ c # cs)" by (intro wf_append)
          then show "wf_markup ((X @ ?out @ [c]) @ cs)" by simp
        qed
        with ms tk False Cons show ?thesis
          by (subst replace_from.simps) (simp add: Let_def)
      qed
    qed
  qed
qed

text \<open>
  A template is safe when every replacement text it gives is safe markup.  A template
  that is safe markup itself is safe.
\<close>

lemma replace_all_wf:
  assumes "aligned m"
    and "\<And>matched pre post caps.
      wf_markup matched \<Longrightarrow> wf_markup pre \<Longrightarrow> wf_markup post \<Longrightarrow> wf_caps caps \<Longrightarrow>
      wf_markup (substitute template matched pre post caps)"
    and "wf_markup s"
  shows "wf_markup (replace_all m template s)"
proof -
  have "wf_markup ([] @ replace_from m template [] s)"
    by (rule replace_from_wf[OF assms(1,2)]) (simp_all add: assms(3))
  then show ?thesis by (simp add: replace_all_def)
qed

lemma wf_template:
  assumes "wf_markup template"
    and "wf_markup matched" and "wf_markup pre" and "wf_markup post" and "wf_caps caps"
  shows "wf_markup (substitute template matched pre post caps)"
proof -
  have "wf_markup ([] @ substitute template matched pre post caps)"
    by (rule substitute_wf[OF assms(2-5)]) (simp add: assms(1))
  then show ?thesis by simp
qed

subsection \<open>The patterns of the source are aligned\<close>

lemma alignedI:
  assumes "\<And>pre s caps rest. wf_markup (pre @ s) \<Longrightarrow> m s = Some (caps, rest) \<Longrightarrow>
    \<exists>matched. s = matched @ rest \<and> wf_markup pre \<and> wf_markup matched \<and> wf_markup rest \<and> wf_caps caps"
  shows "aligned m"
  unfolding aligned_def using assms by blast

lemma wf_caps_simps [simp]:
  "wf_caps []" "wf_caps (Some x # caps) = (wf_markup x \<and> wf_caps caps)"
  "wf_caps (None # caps) = wf_caps caps"
  by (simp_all add: wf_caps_def)

lemma aligned_newline: "aligned match_newline"
proof (rule alignedI)
  fix pre s caps rest
  assume w: "wf_markup (pre @ s)" and m: "match_newline s = Some (caps, rest)"
  from m obtain r where s: "s = [10] @ r" and "Some ([], r) = Some (caps, rest)"
    unfolding match_newline_def by (blast dest: lit_Some)
  then have c: "caps = []" and r: "r = rest" by simp_all
  from w s r have "wf_markup (pre @ 10 # rest)" by simp
  from wf_cut_outside[OF this] have "wf_markup pre" "wf_markup rest" by simp_all
  moreover have "wf_markup [10]" by (rule wf_outside_all) simp
  ultimately have "s = [10] @ rest \<and> wf_markup pre \<and> wf_markup [10] \<and> wf_markup rest \<and> wf_caps caps"
    using s r c by simp
  then show "\<exists>matched. s = matched @ rest \<and> wf_markup pre \<and> wf_markup matched \<and> wf_markup rest \<and> wf_caps caps"
    by blast
qed

lemma star_lazy_capture:
  assumes "capture (star_lazy P) s k = Some x"
  shows "\<exists>a r. s = a @ r \<and> (\<forall>c \<in> set a. P c) \<and> k a r = Some x"
  using assms by (rule capture_Some) (rule star_lazy_Some)

lemma aligned_bold: "aligned match_bold"
proof (rule alignedI)
  fix pre s caps rest
  assume w: "wf_markup (pre @ s)" and m: "match_bold s = Some (caps, rest)"
  from m obtain r1 where s: "s = js ''**'' @ r1"
    and m1: "capture (star_lazy dot) r1 (\<lambda>g1 s2. lit (js ''**'') s2 (\<lambda>s3. Some ([Some g1], s3)))
               = Some (caps, rest)"
    unfolding match_bold_def by (blast dest: lit_Some)
  from star_lazy_capture[OF m1] obtain g r2 where r1: "r1 = g @ r2"
    and m2: "lit (js ''**'') r2 (\<lambda>s3. Some ([Some g], s3)) = Some (caps, rest)"
    by blast
  from lit_Some[OF m2] have r2: "r2 = js ''**'' @ rest" and caps: "caps = [Some g]"
    by auto
  have stars: "\<forall>c \<in> set (js ''**''). outside c" "js ''**'' \<noteq> []" by (simp_all add: js_def)
  from w s r1 r2 have "wf_markup (pre @ js ''**'' @ (g @ js ''**'' @ rest))" by simp
  from wf_cut_run[OF this stars] have pw: "wf_markup pre" and w2: "wf_markup (g @ js ''**'' @ rest)"
    by simp_all
  from wf_cut_run[OF w2 stars] have gw: "wf_markup g" and rw: "wf_markup rest" by simp_all
  have sw: "wf_markup (js ''**'')" using stars(1) by (rule wf_outside_all)
  have "wf_markup (js ''**'' @ g @ js ''**'')" using sw gw by (intro wf_append)
  moreover have "s = (js ''**'' @ g @ js ''**'') @ rest" using s r1 r2 by simp
  ultimately show "\<exists>matched. s = matched @ rest \<and> wf_markup pre \<and> wf_markup matched \<and> wf_markup rest \<and> wf_caps caps"
    using pw rw gw caps by (intro exI[of _ "js ''**'' @ g @ js ''**''"]) simp
qed

lemma hd_last_tags [simp]:
  "hd (js ''<p>'') = 60" "last (js ''<p>'') = 62" "js ''<p>'' \<noteq> []"
  "hd (js ''</p>'') = 60" "last (js ''</p>'') = 62" "js ''</p>'' \<noteq> []"
  "hd (js ''<li>'') = 60" "last (js ''</li>'') = 62" "js ''<li>'' \<noteq> []" "js ''</li>'' \<noteq> []"
  "last (js ''<br>'') = 62" "js ''<br>'' \<noteq> []" "hd (js ''<br>'') = 60"
  by (simp_all add: js_def)

lemma aligned_bullet: "aligned match_bullet"
proof (rule alignedI)
  fix pre s caps rest
  assume w: "wf_markup (pre @ s)" and m: "match_bullet s = Some (caps, rest)"
  from m obtain s1 where s: "s = js ''<p>'' @ s1"
    and m1: "one_of bullet_class s1 (\<lambda>s2. star is_space s2 (\<lambda>s3.
               capture (star_lazy dot) s3 (\<lambda>g1 s4. lit (js ''</p>'') s4 (\<lambda>s5. Some ([Some g1], s5)))))
             = Some (caps, rest)"
    unfolding match_bullet_def by (blast dest: lit_Some)
  from one_of_Some[OF m1] obtain c s2 where s1: "s1 = c # s2" and c: "bullet_class c"
    and m2: "star is_space s2 (\<lambda>s3.
               capture (star_lazy dot) s3 (\<lambda>g1 s4. lit (js ''</p>'') s4 (\<lambda>s5. Some ([Some g1], s5))))
             = Some (caps, rest)"
    by blast
  from star_Some[OF m2] obtain ws s3 where s2: "s2 = ws @ s3" and ws: "\<forall>c \<in> set ws. is_space c"
    and m3: "capture (star_lazy dot) s3 (\<lambda>g1 s4. lit (js ''</p>'') s4 (\<lambda>s5. Some ([Some g1], s5)))
             = Some (caps, rest)"
    by blast
  from star_lazy_capture[OF m3] obtain g s4 where s3: "s3 = g @ s4"
    and m4: "lit (js ''</p>'') s4 (\<lambda>s5. Some ([Some g], s5)) = Some (caps, rest)"
    by blast
  from lit_Some[OF m4] have s4: "s4 = js ''</p>'' @ rest" and caps: "caps = [Some g]"
    by auto
  have run: "\<forall>c \<in> set (c # ws). outside c" "c # ws \<noteq> []"
    using c ws by (auto intro: outside_bullet outside_space)
  from w s s1 s2 s3 s4 have "wf_markup (pre @ js ''<p>'' @ ((c # ws) @ g @ js ''</p>'' @ rest))"
    by simp
  from wf_cut_tag[OF this] have pw: "wf_markup pre"
    and w1: "wf_markup ([] @ (c # ws) @ (g @ js ''</p>'' @ rest))" by simp_all
  from wf_cut_run[OF w1 run] have w2: "wf_markup (g @ js ''</p>'' @ rest)" by simp
  from wf_cut_tag[OF w2] have gw: "wf_markup g" and rw: "wf_markup rest" by simp_all
  have "wf_markup (js ''<p>'' @ (c # ws) @ g @ js ''</p>'')"
    using gw wf_outside_all[OF run(1)] by (intro wf_append) simp_all
  moreover have "s = (js ''<p>'' @ (c # ws) @ g @ js ''</p>'') @ rest"
    using s s1 s2 s3 s4 by simp
  ultimately show "\<exists>matched. s = matched @ rest \<and> wf_markup pre \<and> wf_markup matched \<and> wf_markup rest \<and> wf_caps caps"
    using pw rw gw caps by (intro exI[of _ "js ''<p>'' @ (c # ws) @ g @ js ''</p>''"]) simp
qed

text \<open>Pieces that start and end where markup may be cut.\<close>

lemma wf_cut_pieces:
  "\<forall>a \<in> set as. a \<noteq> [] \<and> \<not> inner_char (hd a) \<and> \<not> nonfinal_char (last a) \<Longrightarrow> as \<noteq> [] \<Longrightarrow>
   wf_markup (pre @ concat as @ rest) \<Longrightarrow>
   wf_markup pre \<and> wf_markup rest \<and> (\<forall>a \<in> set as. wf_markup a)"
proof (induction as arbitrary: pre)
  case Nil
  then show ?case by simp
next
  case (Cons a as)
  from Cons.prems(1) have a: "a \<noteq> []" "\<not> inner_char (hd a)" "\<not> nonfinal_char (last a)" by simp_all
  let ?tail = "concat as @ rest"
  from Cons.prems(3) have w: "wf_markup (pre @ (a @ ?tail))" by simp
  have "wf_markup pre \<and> wf_markup (a @ ?tail)"
    by (rule wf_split[OF w refl]) (use a in simp)
  then have pw: "wf_markup pre" and w1: "wf_markup (a @ ?tail)" by simp_all
  have "wf_markup a \<and> wf_markup ?tail"
    by (rule wf_split[OF w1 refl]) (use a in simp)
  then have aw: "wf_markup a" and tw: "wf_markup ?tail" by simp_all
  show ?case
  proof (cases "as = []")
    case True
    with pw aw tw show ?thesis by simp
  next
    case False
    from tw have "wf_markup ([] @ concat as @ rest)" by simp
    from Cons.IH[OF _ False this] Cons.prems(1) have "wf_markup rest \<and> (\<forall>a \<in> set as. wf_markup a)"
      by simp
    with pw aw show ?thesis by simp
  qed
qed

lemma wf_concat: "\<forall>a \<in> set as. wf_markup a \<Longrightarrow> wf_markup (concat as)"
  by (induction as) (auto intro: wf_append wf_empty)

lemma item_body:
  assumes "lit (js ''<li>'') s (\<lambda>s1. star dot s1 (\<lambda>s2. lit (js ''</li>'') s2 k)) = Some x"
  shows "\<exists>a r. s = a @ r \<and> (a \<noteq> [] \<and> hd a = 60 \<and> last a = 62) \<and> k r = Some x"
proof -
  from lit_Some[OF assms] obtain s1 where s: "s = js ''<li>'' @ s1"
    and m1: "star dot s1 (\<lambda>s2. lit (js ''</li>'') s2 k) = Some x"
    by blast
  from star_Some[OF m1] obtain y s2 where s1: "s1 = y @ s2"
    and m2: "lit (js ''</li>'') s2 k = Some x"
    by blast
  from lit_Some[OF m2] obtain r where s2: "s2 = js ''</li>'' @ r" and k: "k r = Some x"
    by blast
  let ?a = "js ''<li>'' @ y @ js ''</li>''"
  have "s = ?a @ r" using s s1 s2 by simp
  moreover have "?a \<noteq> []" "hd ?a = 60" "last ?a = 62" by (simp_all add: js_def)
  ultimately show ?thesis using k by blast
qed

lemma aligned_items: "aligned match_items"
proof (rule alignedI)
  fix pre s caps rest
  assume w: "wf_markup (pre @ s)" and m: "match_items s = Some (caps, rest)"
  let ?Q = "\<lambda>a::jsstring. a \<noteq> [] \<and> hd a = 60 \<and> last a = 62"
  from m have "group_plus (\<lambda>s k. lit (js ''<li>'') s (\<lambda>s1. star dot s1 (\<lambda>s2. lit (js ''</li>'') s2 k))) s
       (\<lambda>g1 r. Some ([g1], r)) = Some (caps, rest)"
    by (simp add: match_items_def)
  from group_plus_Some[where Q = ?Q, OF this item_body]
  obtain as r where as: "as \<noteq> []" "s = concat as @ r" "\<forall>a \<in> set as. ?Q a"
    and res: "Some ([Some (last as)], r) = Some (caps, rest)"
    by blast
  from res have caps: "caps = [Some (last as)]" and r: "r = rest" by simp_all
  have cut: "\<forall>a \<in> set as. a \<noteq> [] \<and> \<not> inner_char (hd a) \<and> \<not> nonfinal_char (last a)"
    using as(3) by simp
  from w as(2) r have "wf_markup (pre @ concat as @ rest)" by simp
  from wf_cut_pieces[OF cut as(1) this] have pw: "wf_markup pre" and rw: "wf_markup rest"
    and aw: "\<forall>a \<in> set as. wf_markup a" by simp_all
  have "wf_markup (last as)" using aw as(1) by simp
  with pw rw wf_concat[OF aw] as(2) r caps
  show "\<exists>matched. s = matched @ rest \<and> wf_markup pre \<and> wf_markup matched \<and> wf_markup rest \<and> wf_caps caps"
    by (intro exI[of _ "concat as"]) simp
qed

subsection \<open>The table pattern\<close>

lemma lit_body: "lit p s k = Some x \<Longrightarrow> \<exists>a r. s = a @ r \<and> a = p \<and> k r = Some x"
  by (blast dest: lit_Some)

lemma row_body:
  assumes "lit (js ''|'') s (\<lambda>a. plus_of not_lt a (\<lambda>b. lit (js ''<br>'') b k)) = Some x"
  shows "\<exists>a r. s = a @ r \<and> (a \<noteq> [] \<and> hd a = 124 \<and> last a = 62) \<and> k r = Some x"
proof -
  from lit_Some[OF assms] obtain s1 where s: "s = js ''|'' @ s1"
    and m1: "plus_of not_lt s1 (\<lambda>b. lit (js ''<br>'') b k) = Some x"
    by blast
  from plus_of_Some[OF m1] obtain y s2 where s1: "s1 = y @ s2"
    and m2: "lit (js ''<br>'') s2 k = Some x"
    by blast
  from lit_Some[OF m2] obtain r where s2: "s2 = js ''<br>'' @ r" and k: "k r = Some x"
    by blast
  let ?a = "js ''|'' @ y @ js ''<br>''"
  have "s = ?a @ r" using s s1 s2 by simp
  moreover have "?a \<noteq> []" "hd ?a = 124" "last ?a = 62" by (simp_all add: js_def)
  ultimately show ?thesis using k by blast
qed

lemma group_opt_total: "(\<And>g r. k g r \<noteq> None) \<Longrightarrow> group_opt m s k \<noteq> None"
  by (auto simp: group_opt_def split: option.splits)

text \<open>The last line of a table: a pipe and all that follows up to the next \<open><\<close>.\<close>

lemma last_line:
  assumes "capture (\<lambda>s k. lit (js ''|'') s (\<lambda>a. plus_of not_lt a k)) s K = Some x"
    and total: "\<And>g r. K g r \<noteq> None"
  shows "\<exists>g r. s = g @ r \<and> g \<noteq> [] \<and> hd g = 124 \<and> (r = [] \<or> hd r = 60) \<and> K g r = Some x"
proof -
  let ?k = "\<lambda>r. K (take (length s - length r) s) r"
  from assms(1) have "lit (js ''|'') s (\<lambda>a. plus_of not_lt a ?k) = Some x"
    by (simp add: capture_def)
  from lit_Some[OF this] obtain a where s: "s = js ''|'' @ a"
    and m1: "plus_of not_lt a ?k = Some x"
    by blast
  have "\<forall>r. ?k r \<noteq> None" using total by simp
  from plus_of_total[OF this m1] obtain y where a: "a = y @ dropWhile not_lt a"
    and k: "?k (dropWhile not_lt a) = Some x"
    by blast
  let ?r = "dropWhile not_lt a" and ?g = "js ''|'' @ y"
  have sg: "s = ?g @ ?r" using s a by simp
  then have "take (length s - length ?r) s = ?g"
    by (metis append_eq_conv_conj length_append add_diff_cancel_right')
  with k have "K ?g ?r = Some x" by simp
  moreover have "?r = [] \<or> hd ?r = 60"
    using hd_dropWhile[of not_lt a] by (auto simp: not_lt_def)
  moreover have "?g \<noteq> []" "hd ?g = 124" by (simp_all add: js_def)
  ultimately show ?thesis using sg by blast
qed

lemma aligned_table: "aligned match_table"
proof (rule alignedI)
  fix pre s caps rest
  assume w: "wf_markup (pre @ s)" and m: "match_table s = Some (caps, rest)"
  let ?row = "\<lambda>s k. lit (js ''|'') s (\<lambda>a. plus_of not_lt a (\<lambda>b. lit (js ''<br>'') b k))"
  let ?K4 = "\<lambda>g1 g2 g3 g4 s4. Some ([g1, g2, Some g3, g4], s4) :: (jsstring option list \<times> jsstring) option"
  let ?K3 = "\<lambda>g1 g2 g3 s3. group_opt (lit (js ''</p>'')) s3 (?K4 g1 g2 g3)"
  let ?K2 = "\<lambda>g1 g2 s2. capture (\<lambda>s k. lit (js ''|'') s (\<lambda>a. plus_of not_lt a k)) s2 (?K3 g1 g2)"
  let ?K1 = "\<lambda>g1 s1. group_plus ?row s1 (?K2 g1)"
  let ?Qrow = "\<lambda>a::jsstring. a \<noteq> [] \<and> hd a = 124 \<and> last a = 62"
  from m have m0: "group_opt (lit (js ''<p>'')) s ?K1 = Some (caps, rest)"
    by (simp add: match_table_def)
  from group_opt_Some[where Q = "\<lambda>a. a = js ''<p>''", OF m0 lit_body]
  obtain g1 t1 s1 where g1: "s = t1 @ s1" "g1 = Some (js ''<p>'') \<and> t1 = js ''<p>'' \<or> g1 = None \<and> t1 = []"
    and m1: "?K1 g1 s1 = Some (caps, rest)"
    by (metis append_Nil)
  from group_plus_Some[where Q = ?Qrow, OF m1 row_body]
  obtain rows s2 where rows: "rows \<noteq> []" "s1 = concat rows @ s2" "\<forall>a \<in> set rows. ?Qrow a"
    and m2: "?K2 g1 (Some (last rows)) s2 = Some (caps, rest)"
    by blast
  have tot: "\<And>g r. ?K3 g1 (Some (last rows)) g r \<noteq> None"
    by (rule group_opt_total) simp
  from last_line[OF m2 tot]
  obtain g3 s3 where g3: "s2 = g3 @ s3" "g3 \<noteq> []" "hd g3 = 124" "s3 = [] \<or> hd s3 = 60"
    and m3: "?K3 g1 (Some (last rows)) g3 s3 = Some (caps, rest)"
    by blast
  from group_opt_Some[where Q = "\<lambda>a. a = js ''</p>''", OF m3 lit_body]
  obtain g4 t4 where g4: "s3 = t4 @ rest" "g4 = Some (js ''</p>'') \<and> t4 = js ''</p>'' \<or> g4 = None \<and> t4 = []"
    and caps: "caps = [g1, Some (last rows), Some g3, g4]"
    by auto
  have cut: "\<forall>a \<in> set rows. a \<noteq> [] \<and> \<not> inner_char (hd a) \<and> \<not> nonfinal_char (last a)"
    using rows(3) outside_chars(6) by (auto simp: outside_def)
  \<comment> \<open>the paragraph tag in front\<close>
  from w g1(1) have w0: "wf_markup (pre @ t1 @ s1)" by simp
  have "wf_markup pre \<and> wf_markup t1 \<and> wf_markup s1"
  proof (cases "t1 = []")
    case True
    from rows have "s1 \<noteq> []" "hd s1 = 124"
      by (cases rows; auto)+
    then have "\<not> inner_char (hd s1)" using outside_chars(6) by (simp add: outside_def)
    with wf_split[OF w0, of pre "t1 @ s1"] True show ?thesis by (simp add: wf_empty)
  next
    case False
    with g1(2) have "t1 = js ''<p>''" by auto
    with wf_cut_tag[OF w0] show ?thesis by simp
  qed
  then have pw: "wf_markup pre" and t1w: "wf_markup t1" and s1w: "wf_markup s1" by simp_all
  \<comment> \<open>the lines that end in a line break\<close>
  from s1w rows(2) have "wf_markup ([] @ concat rows @ s2)" by simp
  from wf_cut_pieces[OF cut rows(1) this] have s2w: "wf_markup s2"
    and rw: "\<forall>a \<in> set rows. wf_markup a" by simp_all
  \<comment> \<open>the last line and the closing tag\<close>
  from s2w g3(1) have w3: "wf_markup (g3 @ s3)" by simp
  have "wf_markup g3 \<and> wf_markup s3"
    by (rule wf_split[OF w3 refl]) (use g3(4) in auto)
  then have g3w: "wf_markup g3" and s3w: "wf_markup s3" by simp_all
  have "wf_markup t4 \<and> wf_markup rest"
  proof (cases "t4 = []")
    case True
    with s3w g4(1) show ?thesis by (simp add: wf_empty)
  next
    case False
    with g4(2) have t4: "t4 = js ''</p>''" by auto
    from s3w g4(1) have "wf_markup ([] @ t4 @ rest)" by simp
    from wf_cut_tag[OF this] t4 show ?thesis by simp
  qed
  then have t4w: "wf_markup t4" and restw: "wf_markup rest" by simp_all
  let ?matched = "t1 @ concat rows @ g3 @ t4"
  have "wf_markup ?matched"
    using t1w wf_concat[OF rw] g3w t4w by (intro wf_append)
  moreover have "s = ?matched @ rest" using g1(1) rows(2) g3(1) g4(1) by simp
  moreover have "wf_caps caps"
    using caps g1(2) g4(2) rw rows(1) g3w by auto
  ultimately show "\<exists>matched. s = matched @ rest \<and> wf_markup pre \<and> wf_markup matched \<and> wf_markup rest \<and> wf_caps caps"
    using pw restw by blast
qed

subsection \<open>Tables\<close>

lemma pipe_cut:
  "js ''|'' \<noteq> []" "\<not> inner_char (hd (js ''|''))" "\<not> nonfinal_char (last (js ''|''))"
  using outside_chars(6) by (simp_all add: js_def outside_def)

lemma br_cut:
  "js ''<br>'' \<noteq> []" "\<not> inner_char (hd (js ''<br>''))" "\<not> nonfinal_char (last (js ''<br>''))"
  by simp_all

lemma cell_wf:
  assumes "wf_markup line" and "cell \<in> set (split_str line (js ''|''))"
  shows "wf_markup (trim cell)"
proof -
  have "wf_markup cell" by (rule split_str_wf[OF pipe_cut assms])
  then show ?thesis by (rule wf_trim)
qed

lemma cells_wf:
  assumes "wf_markup opening" and "wf_markup closing" and "\<forall>cell \<in> set cells. wf_markup (trim cell)"
  shows "wf_markup (concat (map (\<lambda>cell. opening @ trim cell @ closing) cells))"
proof (rule wf_concat, rule ballI)
  fix a
  assume "a \<in> set (map (\<lambda>cell. opening @ trim cell @ closing) cells)"
  then obtain cell where "cell \<in> set cells" and a: "a = opening @ trim cell @ closing" by auto
  with assms(3) have "wf_markup (trim cell)" by simp
  with assms(1,2) show "wf_markup a" unfolding a by (intro wf_append)
qed

lemma th_td:
  "js ''<'' @ js ''th'' @ js ''>'' @ x @ js ''</'' @ js ''th'' @ js ''>'' = js ''<th>'' @ x @ js ''</th>''"
  "js ''<'' @ js ''td'' @ js ''>'' @ x @ js ''</'' @ js ''td'' @ js ''>'' = js ''<td>'' @ x @ js ''</td>''"
  by (simp_all add: js_def)

lemma table_row_wf:
  assumes "wf_markup line"
  shows "wf_markup (table_row line index)"
proof (cases "is_separator line")
  case True
  then show ?thesis by (simp only: table_row_def if_True wf_empty)
next
  case False
  let ?cells = "filter (\<lambda>cell. trim cell \<noteq> []) (split_str line (js ''|''))"
  have cw: "\<forall>cell \<in> set ?cells. wf_markup (trim cell)"
    using cell_wf[OF assms] by simp
  show ?thesis
  proof (cases "index = 0")
    case True
    have "wf_markup (concat (map (\<lambda>cell. js ''<th>'' @ trim cell @ js ''</th>'') ?cells))"
      by (rule cells_wf[OF _ _ cw]) simp_all
    then have "wf_markup (js ''<tr>'' @
        concat (map (\<lambda>cell. js ''<th>'' @ trim cell @ js ''</th>'') ?cells) @ js ''</tr>'')"
      by (intro wf_append) simp_all
    moreover have "table_row line index =
        (if length ?cells > 0
         then js ''<tr>'' @ concat (map (\<lambda>cell. js ''<th>'' @ trim cell @ js ''</th>'') ?cells) @ js ''</tr>''
         else [])"
      unfolding table_row_def Let_def using False True by (simp add: th_td)
    ultimately show ?thesis by (auto simp only: wf_empty split: if_split)
  next
    case nz: False
    have "wf_markup (concat (map (\<lambda>cell. js ''<td>'' @ trim cell @ js ''</td>'') ?cells))"
      by (rule cells_wf[OF _ _ cw]) simp_all
    then have "wf_markup (js ''<tr>'' @
        concat (map (\<lambda>cell. js ''<td>'' @ trim cell @ js ''</td>'') ?cells) @ js ''</tr>'')"
      by (intro wf_append) simp_all
    moreover have "table_row line index =
        (if length ?cells > 0
         then js ''<tr>'' @ concat (map (\<lambda>cell. js ''<td>'' @ trim cell @ js ''</td>'') ?cells) @ js ''</tr>''
         else [])"
      unfolding table_row_def Let_def using False nz by (simp add: th_td)
    ultimately show ?thesis by (auto simp only: wf_empty split: if_split)
  qed
qed

lemma convertToTable_wf:
  assumes "wf_markup html"
  shows "wf_markup (convertToTable html)"
proof -
  let ?lines = "filter (\<lambda>line. includes_str line (js ''|'')) (split_str html (js ''<br>''))"
  let ?rows = "map (\<lambda>(line, index). table_row line index) (zip ?lines [0..<length ?lines])"
  let ?table = "js ''<table>'' @ concat ?rows @ js ''</table>''"
  have "\<forall>row \<in> set ?rows. wf_markup row"
  proof (rule ballI)
    fix row
    assume "row \<in> set ?rows"
    then obtain line index where z: "(line, index) \<in> set (zip ?lines [0..<length ?lines])"
      and row: "row = table_row line index"
      by auto
    from z have "line \<in> set ?lines" by (rule set_zip_leftD)
    then have "line \<in> set (split_str html (js ''<br>''))" by simp
    then have "wf_markup line" by (rule split_str_wf[OF br_cut assms])
    then show "wf_markup row" unfolding row by (rule table_row_wf)
  qed
  then have "wf_markup (concat ?rows)" by (rule wf_concat)
  then have tw: "wf_markup ?table"
    by (intro wf_append) simp_all
  have rw: "wf_markup (replace_all match_table ?table html)"
    by (rule replace_all_wf[OF aligned_table wf_template[OF tw] assms])
  have eq: "convertToTable html = (if length ?lines < 2 then html else replace_all match_table ?table html)"
    unfolding convertToTable_def Let_def by (rule refl)
  show ?thesis
  proof (cases "length ?lines < 2")
    case True
    with eq have "convertToTable html = html" by (simp only: if_True)
    with assms show ?thesis by (simp only:)
  next
    case False
    with eq have "convertToTable html = replace_all match_table ?table html" by (simp only: if_False)
    with rw show ?thesis by (simp only:)
  qed
qed

lemma paragraph_wf:
  assumes "wf_markup para"
  shows "wf_markup (js ''<p>'' @ replace_all match_newline (js ''<br>'') para @ js ''</p>'')"
proof -
  have "wf_markup (replace_all match_newline (js ''<br>'') para)"
    by (rule replace_all_wf[OF aligned_newline wf_template assms]) simp
  then show ?thesis by (intro wf_append) simp_all
qed

lemma format_escaped_wf:
  assumes "wf_markup escaped"
  shows "wf_markup (format_escaped escaped)"
proof -
  let ?f1 = "concat (map (\<lambda>para. js ''<p>'' @ replace_all match_newline (js ''<br>'') para @ js ''</p>'')
                      (split_str escaped [10, 10]))"
  let ?f2 = "replace_all match_bullet (js ''<li>$1</li>'') ?f1"
  let ?f3 = "replace_all match_items (js ''<ul>$&</ul>'') ?f2"
  let ?f4 = "replace_all match_bold (js ''<strong>$1</strong>'') ?f3"
  have sep: "[10, 10] \<noteq> []" "\<not> inner_char (hd [10, 10])" "\<not> nonfinal_char (last [10, 10::nat])"
    using outside_chars(1) by (simp_all add: outside_def)
  have "wf_markup para" if "para \<in> set (split_str escaped [10, 10])" for para
    using split_str_wf[OF sep assms that] .
  then have w1: "wf_markup ?f1"
    by (intro wf_concat) (auto intro: paragraph_wf)
  have d1: "wf_markup (js ''$1'')"
    by (rule wf_outside_all) (simp add: js_def outside_iff)
  have t2: "wf_markup (js ''<li>$1</li>'')"
  proof -
    have "wf_markup (js ''<li>'' @ js ''$1'' @ js ''</li>'')"
      by (intro wf_append) (simp_all add: d1)
    then show ?thesis by (simp add: js_def)
  qed
  have t4: "wf_markup (js ''<strong>$1</strong>'')"
  proof -
    have "wf_markup (js ''<strong>'' @ js ''$1'' @ js ''</strong>'')"
      by (intro wf_append) (simp_all add: d1)
    then show ?thesis by (simp add: js_def)
  qed
  have t3: "wf_markup (substitute (js ''<ul>$&</ul>'') matched pre post caps)"
    if "wf_markup matched" for matched pre post caps
  proof -
    have "substitute (js ''<ul>$&</ul>'') matched pre post caps = js ''<ul>'' @ matched @ js ''</ul>''"
      by (simp add: js_def reference_def is_digit_def)
    moreover have "wf_markup (js ''<ul>'' @ matched @ js ''</ul>'')"
      using that by (intro wf_append) simp_all
    ultimately show ?thesis by simp
  qed
  have w2: "wf_markup ?f2"
    by (rule replace_all_wf[OF aligned_bullet wf_template[OF t2] w1])
  have w3: "wf_markup ?f3"
    by (rule replace_all_wf[OF aligned_items t3 w2])
  have w4: "wf_markup ?f4"
    by (rule replace_all_wf[OF aligned_bold wf_template[OF t4] w3])
  show ?thesis
    using w4 convertToTable_wf[OF w4] by (simp add: format_escaped_def Let_def)
qed

lemma safe_markup_rejects:
  "\<not> safe_markup (js ''<script>'')" "\<not> safe_markup (js ''a < b'')" "\<not> safe_markup (js ''a & b'')"
  "\<not> safe_markup (js ''a > b'')" "safe_markup (js ''<p>a &lt; b</p>'')"
  by (simp_all add: js_def markup_tags_def entities_def)

text \<open>
  Claim C6.  For every raw input text, the output of the formatter holds no unescaped
  \<open><\<close>, \<open>>\<close> or \<open>&\<close> from the input.  \<open>escapeHtml\<close> replaces every one of them by its
  escape, all later stages work on the escaped text, and the output is safe markup: each
  \<open><\<close> and \<open>>\<close> in it belongs to a tag of the formatter's own, and each \<open>&\<close> starts an
  escape.
\<close>

theorem formatMessage_safe:
  "safe_markup (fst (formatMessage doc t)) \<and>
   fst (formatMessage doc t) = format_escaped (fst (escapeHtml doc t)) \<and>
   fst (escapeHtml doc t) = concat (map escape_unit t) \<and>
   escape_unit 60 = js ''&lt;'' \<and> escape_unit 62 = js ''&gt;'' \<and> escape_unit 38 = js ''&amp;''"
proof -
  have e: "fst (escapeHtml doc t) = concat (map escape_unit t)"
    by (simp add: escapeHtml_def createElement_def set_textContent_def innerHTML_def)
  have f: "fst (formatMessage doc t) = format_escaped (fst (escapeHtml doc t))"
    by (simp add: formatMessage_eq e)
  have "wf_markup (format_escaped (concat (map escape_unit t)))"
    by (rule format_escaped_wf[OF wf_escape])
  then have "safe_markup (fst (formatMessage doc t))"
    by (simp only: f e safe_markup_iff)
  with e f show ?thesis
    by (simp add: escape_unit_def)
qed

theorem formatMessage_safe_witness:
  "safe_markup (fst (formatMessage [] (js ''<b>x</b> & **y**''))) \<and>
   fst (formatMessage [] (js ''<b>x</b> & **y**'')) =
     js ''<p>&lt;b&gt;x&lt;/b&gt; &amp; <strong>y</strong></p>''"
proof -
  have eq: "fst (formatMessage [] (js ''<b>x</b> & **y**'')) =
     js ''<p>&lt;b&gt;x&lt;/b&gt; &amp; <strong>y</strong></p>''"
    unfolding formatMessage_eq fst_conv
    by (simp add: eval_defs cong: option.case_cong_weak list.case_cong_weak)
  have "safe_markup (fst (formatMessage [] (js ''<b>x</b> & **y**'')))"
    using formatMessage_safe[of "[]" "js ''<b>x</b> & **y**''"] by (rule conjunct1)
  then show ?thesis using eq by (rule conjI)
qed

end
